theory Spec2Isabelle
  imports Complex_Main "HOL-Library.Product_Lexorder"
begin

section \<open>Strings\<close>

text \<open>
  A Python \<open>str\<close> is a sequence of code points. The model is over the code points below
  256 (Latin-1), one \<^typ>\<open>char\<close> each, so \<^const>\<open>length\<close> counts what \<open>len\<close> counts.
  The character classes are those of CPython's Unicode database on that range:
  \<open>str.isspace\<close> (also the regular-expression class \<open>\s\<close> and what \<open>str.strip()\<close>
  removes), \<open>str.isalpha\<close>, the decimal digits \<open>\d\<close>, and the word characters \<open>\w\<close>
  (alphanumeric or underscore).
\<close>

definition isspace :: "char \<Rightarrow> bool" where
  "isspace c = (let n = (of_char c :: nat)
                in (9 \<le> n \<and> n \<le> 13) \<or> (28 \<le> n \<and> n \<le> 32) \<or> n = 133 \<or> n = 160)"

definition isupper_ascii :: "char \<Rightarrow> bool" where
  "isupper_ascii c = (let n = (of_char c :: nat) in 65 \<le> n \<and> n \<le> 90)"

definition islower_ascii :: "char \<Rightarrow> bool" where
  "islower_ascii c = (let n = (of_char c :: nat) in 97 \<le> n \<and> n \<le> 122)"

definition isalpha :: "char \<Rightarrow> bool" where
  "isalpha c = (let n = (of_char c :: nat)
                in isupper_ascii c \<or> islower_ascii c \<or> n = 170 \<or> n = 181 \<or> n = 186
                   \<or> (192 \<le> n \<and> n \<le> 214) \<or> (216 \<le> n \<and> n \<le> 246) \<or> 248 \<le> n)"

definition isdecimal :: "char \<Rightarrow> bool" where
  "isdecimal c = (let n = (of_char c :: nat) in 48 \<le> n \<and> n \<le> 57)"

definition isnumeric :: "char \<Rightarrow> bool" where
  "isnumeric c = (let n = (of_char c :: nat)
                  in isdecimal c \<or> n = 178 \<or> n = 179 \<or> n = 185 \<or> (188 \<le> n \<and> n \<le> 190))"

definition isword :: "char \<Rightarrow> bool" where
  "isword c = (isalpha c \<or> isnumeric c \<or> c = CHR ''_'')"

text \<open>\<open>str.lower()\<close>: on Latin-1 every upper-case letter has a one-character lower case,
  32 code points above it.\<close>

definition lower_char :: "char \<Rightarrow> char" where
  "lower_char c = (let n = (of_char c :: nat)
                   in if isupper_ascii c \<or> (192 \<le> n \<and> n \<le> 222 \<and> n \<noteq> 215)
                      then char_of (n + 32) else c)"

definition lower :: "string \<Rightarrow> string" where
  "lower s = map lower_char s"

text \<open>\<open>str.strip()\<close> with no argument.\<close>

definition strip :: "string \<Rightarrow> string" where
  "strip s = rev (dropWhile isspace (rev (dropWhile isspace s)))"

text \<open>The exceptions that the modelled code can raise.\<close>

datatype error = ValueError | AttributeError

section \<open>difflib.SequenceMatcher\<close>

text \<open>
  \<open>calculate_similarity\<close> is \<open>SequenceMatcher(None, str1.lower(), str2.lower()).ratio()\<close>.
  The matcher is modelled after CPython's \<open>difflib\<close> with \<open>isjunk = None\<close> and
  \<open>autojunk = True\<close>, the values this call uses.

  \<open>__chain_b\<close>: \<open>b2j\<close> maps each element of \<open>b\<close> to the ascending list of its positions;
  when \<open>len(b) >= 200\<close>, the elements occurring more than \<open>len(b) // 100 + 1\<close> times
  ("popular") are deleted from \<open>b2j\<close>.
\<close>

definition setdefault_append :: "('a \<rightharpoonup> nat list) \<Rightarrow> nat \<times> 'a \<Rightarrow> ('a \<rightharpoonup> nat list)" where
  "setdefault_append b2j p =
     (case p of (i, elt) \<Rightarrow>
        b2j(elt \<mapsto> (case b2j elt of None \<Rightarrow> [] | Some indices \<Rightarrow> indices) @ [i]))"

definition chain_b :: "'a list \<Rightarrow> ('a \<rightharpoonup> nat list)" where
  "chain_b b =
     (let b2j = foldl setdefault_append Map.empty (enumerate 0 b);
          n = length b
      in if n \<ge> 200
         then (let ntest = n div 100 + 1
               in (\<lambda>elt. case b2j elt of
                            None \<Rightarrow> None
                          | Some idxs \<Rightarrow> if length idxs > ntest then None else Some idxs))
         else b2j)"

text \<open>
  \<open>find_longest_match(alo, ahi, blo, bhi)\<close>. The inner loop runs over the positions
  \<open>j\<close> of \<open>a[i]\<close> in \<open>b\<close>: it skips \<open>j < blo\<close>, stops at \<open>j >= bhi\<close>, and sets
  \<open>k = newj2len[j] = j2len.get(j-1, 0) + 1\<close>; a strictly longer \<open>k\<close> replaces the best
  match. The key \<open>j - 1\<close> is \<open>-1\<close> for \<open>j = 0\<close>, which no dictionary holds.
\<close>

type_synonym match = "nat \<times> nat \<times> nat"

definition j2lenget :: "(nat \<rightharpoonup> nat) \<Rightarrow> nat \<Rightarrow> nat" where
  "j2lenget j2len j = (if j = 0 then 0 else case j2len (j - 1) of None \<Rightarrow> 0 | Some v \<Rightarrow> v)"

fun flm_inner :: "(nat \<rightharpoonup> nat) \<Rightarrow> nat \<Rightarrow> nat \<Rightarrow> nat \<Rightarrow> nat list
                    \<Rightarrow> (nat \<rightharpoonup> nat) \<times> match \<Rightarrow> (nat \<rightharpoonup> nat) \<times> match" where
  "flm_inner j2len i blo bhi [] st = st"
| "flm_inner j2len i blo bhi (j # js) (newj2len, (besti, bestj, bestsize)) =
     (if j < blo then flm_inner j2len i blo bhi js (newj2len, (besti, bestj, bestsize))
      else if j \<ge> bhi then (newj2len, (besti, bestj, bestsize))
      else (let k = j2lenget j2len j + 1
            in flm_inner j2len i blo bhi js
                 (newj2len(j \<mapsto> k),
                  if k > bestsize then (i + 1 - k, j + 1 - k, k) else (besti, bestj, bestsize))))"

definition flm_row :: "'a list \<Rightarrow> ('a \<rightharpoonup> nat list) \<Rightarrow> nat \<Rightarrow> nat
                         \<Rightarrow> (nat \<rightharpoonup> nat) \<times> match \<Rightarrow> nat \<Rightarrow> (nat \<rightharpoonup> nat) \<times> match" where
  "flm_row a b2j blo bhi st i =
     (case st of (j2len, best) \<Rightarrow>
        flm_inner j2len i blo bhi (case b2j (a ! i) of None \<Rightarrow> [] | Some js \<Rightarrow> js)
          (Map.empty, best))"

text \<open>The two loops that extend the best match by equal elements on each end. (With
  \<open>isjunk = None\<close> the set \<open>bjunk\<close> is empty, so the two further loops over junk elements
  never run.)\<close>

function extend_left :: "'a list \<Rightarrow> 'a list \<Rightarrow> nat \<Rightarrow> nat \<Rightarrow> match \<Rightarrow> match" where
  "extend_left a b alo blo (besti, bestj, bestsize) =
     (if besti > alo \<and> bestj > blo \<and> a ! (besti - 1) = b ! (bestj - 1)
      then extend_left a b alo blo (besti - 1, bestj - 1, bestsize + 1)
      else (besti, bestj, bestsize))"
  by pat_completeness auto
termination
  by (relation "measure (\<lambda>(a, b, alo, blo, besti, bestj, bestsize). besti)") auto

declare extend_left.simps [simp del]

function extend_right :: "'a list \<Rightarrow> 'a list \<Rightarrow> nat \<Rightarrow> nat \<Rightarrow> match \<Rightarrow> match" where
  "extend_right a b ahi bhi (besti, bestj, bestsize) =
     (if besti + bestsize < ahi \<and> bestj + bestsize < bhi
         \<and> a ! (besti + bestsize) = b ! (bestj + bestsize)
      then extend_right a b ahi bhi (besti, bestj, bestsize + 1)
      else (besti, bestj, bestsize))"
  by pat_completeness auto
termination
  by (relation "measure (\<lambda>(a, b, ahi, bhi, besti, bestj, bestsize). ahi - (besti + bestsize))")
     auto

declare extend_right.simps [simp del]

definition find_longest_match :: "'a list \<Rightarrow> 'a list \<Rightarrow> nat \<Rightarrow> nat \<Rightarrow> nat \<Rightarrow> nat \<Rightarrow> match" where
  "find_longest_match a b alo ahi blo bhi =
     (let b2j = chain_b b;
          (j2len, best) = foldl (flm_row a b2j blo bhi) (Map.empty, (alo, blo, 0)) [alo..<ahi]
      in extend_right a b ahi bhi (extend_left a b alo blo best))"

subsection \<open>Bounds of the longest match\<close>

text \<open>Bounds of the match found: it lies inside the two ranges. The recursion of
  \<open>get_matching_blocks\<close> terminates because of them.\<close>

definition j2len_ok :: "nat \<Rightarrow> nat \<Rightarrow> nat \<Rightarrow> (nat \<rightharpoonup> nat) \<Rightarrow> bool" where
  "j2len_ok alo blo i m = (\<forall>j v. m j = Some v \<longrightarrow> blo \<le> j \<and> v \<le> i - alo \<and> v \<le> j + 1 - blo)"

definition best_ok :: "nat \<Rightarrow> nat \<Rightarrow> nat \<Rightarrow> nat \<Rightarrow> match \<Rightarrow> bool" where
  "best_ok alo ahi blo bhi m = (case m of (i, j, k) \<Rightarrow> alo \<le> i \<and> i + k \<le> ahi \<and> blo \<le> j \<and> j + k \<le> bhi)"

lemma j2lenget_bound:
  assumes "j2len_ok alo blo i m" "blo \<le> j"
  shows "j2lenget m j \<le> i - alo \<and> j2lenget m j \<le> j - blo"
proof (cases "j = 0")
  case True
  then show ?thesis by (simp add: j2lenget_def)
next
  case False
  show ?thesis
  proof (cases "m (j - 1)")
    case None
    then show ?thesis using False by (simp add: j2lenget_def)
  next
    case (Some v)
    then have "blo \<le> j - 1 \<and> v \<le> i - alo \<and> v \<le> (j - 1) + 1 - blo"
      using assms(1) unfolding j2len_ok_def by blast
    then show ?thesis using False Some by (simp add: j2lenget_def)
  qed
qed

lemma flm_inner_ok:
  assumes "j2len_ok alo blo i j2len" "alo \<le> i" "i < ahi"
    and "j2len_ok alo blo (Suc i) new" "best_ok alo ahi blo bhi best"
  shows "j2len_ok alo blo (Suc i) (fst (flm_inner j2len i blo bhi js (new, best)))
       \<and> best_ok alo ahi blo bhi (snd (flm_inner j2len i blo bhi js (new, best)))"
  using assms
proof (induction js arbitrary: new best)
  case Nil then show ?case by simp
next
  case (Cons j js)
  obtain bi bj bs where b: "best = (bi, bj, bs)" by (cases best)
  show ?case
  proof (cases "j < blo")
    case True
    then show ?thesis using Cons b by simp
  next
    case False
    note nb = this
    show ?thesis
    proof (cases "j \<ge> bhi")
      case True
      then show ?thesis using Cons nb b by simp
    next
      case False
      let ?k = "j2lenget j2len j + 1"
      have kb: "?k \<le> Suc i - alo" "?k \<le> j + 1 - blo"
        using j2lenget_bound[OF Cons.prems(1), of j] nb Cons.prems(2) by auto
      have 1: "j2len_ok alo blo (Suc i) (new(j \<mapsto> ?k))"
        using Cons.prems(4) kb nb unfolding j2len_ok_def by auto
      have 2: "best_ok alo ahi blo bhi (if ?k > bs then (i + 1 - ?k, j + 1 - ?k, ?k) else (bi, bj, bs))"
        using Cons.prems(5) b kb nb False Cons.prems(2,3) unfolding best_ok_def by auto
      have "flm_inner j2len i blo bhi (j # js) (new, best)
            = flm_inner j2len i blo bhi js (new(j \<mapsto> ?k), if ?k > bs then (i + 1 - ?k, j + 1 - ?k, ?k) else (bi, bj, bs))"
        using nb False b by (simp add: Let_def)
      then show ?thesis
        using Cons.IH[OF Cons.prems(1,2,3) 1 2] by (simp only:)
    qed
  qed
qed

lemma j2len_ok_empty: "j2len_ok alo blo i Map.empty"
  by (simp add: j2len_ok_def)

lemma flm_row_ok:
  assumes "j2len_ok alo blo i (fst st)" "best_ok alo ahi blo bhi (snd st)" "alo \<le> i" "i < ahi"
  shows "j2len_ok alo blo (Suc i) (fst (flm_row a b2j blo bhi st i))
       \<and> best_ok alo ahi blo bhi (snd (flm_row a b2j blo bhi st i))"
proof -
  obtain m best where st: "st = (m, best)" by (cases st)
  show ?thesis
    using flm_inner_ok[OF _ assms(3,4) j2len_ok_empty, of blo m bhi best] assms(1,2) st
    by (simp add: flm_row_def)
qed

lemma flm_rows_ok:
  assumes "alo \<le> n" "n \<le> ahi" "blo \<le> bhi"
  shows "j2len_ok alo blo n (fst (foldl (flm_row a b2j blo bhi) (Map.empty, (alo, blo, 0)) [alo..<n]))
       \<and> best_ok alo ahi blo bhi (snd (foldl (flm_row a b2j blo bhi) (Map.empty, (alo, blo, 0)) [alo..<n]))"
  using assms
proof (induction n)
  case 0
  then show ?case by (simp add: j2len_ok_empty best_ok_def)
next
  case (Suc n)
  show ?case
  proof (cases "alo = Suc n")
    case True
    then show ?thesis using Suc.prems by (simp add: j2len_ok_empty best_ok_def)
  next
    case False
    then have le: "alo \<le> n" "n < ahi" using Suc.prems by auto
    then have IH: "j2len_ok alo blo n (fst (foldl (flm_row a b2j blo bhi) (Map.empty, (alo, blo, 0)) [alo..<n]))"
        "best_ok alo ahi blo bhi (snd (foldl (flm_row a b2j blo bhi) (Map.empty, (alo, blo, 0)) [alo..<n]))"
      using Suc by auto
    show ?thesis using flm_row_ok[OF IH le] le by simp
  qed
qed

lemma extend_left_ok:
  "best_ok alo ahi blo bhi m \<Longrightarrow> best_ok alo ahi blo bhi (extend_left a b alo blo m)"
proof (induction a b alo blo m rule: extend_left.induct)
  case (1 a b alo blo besti bestj bestsize)
  show ?case
  proof (cases "besti > alo \<and> bestj > blo \<and> a ! (besti - 1) = b ! (bestj - 1)")
    case True
    have "best_ok alo ahi blo bhi (besti - 1, bestj - 1, bestsize + 1)"
      using "1.prems" True by (auto simp: best_ok_def)
    then show ?thesis using "1.IH" True by (subst extend_left.simps) simp
  next
    case False
    then show ?thesis using "1.prems" by (subst extend_left.simps) auto
  qed
qed

lemma extend_right_ok:
  "best_ok alo ahi blo bhi m \<Longrightarrow> best_ok alo ahi blo bhi (extend_right a b ahi bhi m)"
proof (induction a b ahi bhi m rule: extend_right.induct)
  case (1 a b ahi bhi besti bestj bestsize)
  show ?case
  proof (cases "besti + bestsize < ahi \<and> bestj + bestsize < bhi
         \<and> a ! (besti + bestsize) = b ! (bestj + bestsize)")
    case True
    have "best_ok alo ahi blo bhi (besti, bestj, bestsize + 1)"
      using "1.prems" True by (auto simp: best_ok_def)
    then show ?thesis using "1.IH" True by (subst extend_right.simps) simp
  next
    case False
    then show ?thesis using "1.prems" by (subst extend_right.simps) auto
  qed
qed

lemma find_longest_match_ok:
  assumes "alo \<le> ahi" "blo \<le> bhi"
  shows "best_ok alo ahi blo bhi (find_longest_match a b alo ahi blo bhi)"
proof -
  have "best_ok alo ahi blo bhi (snd (foldl (flm_row a (chain_b b) blo bhi) (Map.empty, (alo, blo, 0)) [alo..<ahi]))"
    using flm_rows_ok[OF assms(1) order_refl assms(2), of a "chain_b b"] by blast
  then show ?thesis
    unfolding find_longest_match_def Let_def case_prod_beta
    by (intro extend_right_ok extend_left_ok)
qed

lemma flm_inner_empty_range:
  "bhi \<le> blo \<Longrightarrow> snd (flm_inner j2len i blo bhi js (new, best)) = best"
proof (induction js arbitrary: new)
  case Nil
  then show ?case by simp
next
  case (Cons j js)
  obtain bi bj bs where b: "best = (bi, bj, bs)" by (cases best)
  show ?case
  proof (cases "j < blo")
    case True
    then show ?thesis using Cons b by simp
  next
    case False
    then have "bhi \<le> j" using Cons.prems by simp
    then show ?thesis using False b by simp
  qed
qed

lemma flm_rows_empty_range:
  "bhi \<le> blo \<Longrightarrow> snd (foldl (flm_row a b2j blo bhi) (m, best) is) = best"
proof (induction "is" arbitrary: m)
  case Nil
  then show ?case by simp
next
  case (Cons i "is")
  obtain m' best' where r: "flm_row a b2j blo bhi (m, best) i = (m', best')"
    by (cases "flm_row a b2j blo bhi (m, best) i")
  have "best' = best"
    using flm_inner_empty_range[OF Cons.prems, of m i "case b2j (a ! i) of None \<Rightarrow> [] | Some js \<Rightarrow> js" Map.empty best] r
    by (simp add: flm_row_def)
  then show ?case using Cons r by simp
qed

lemma find_longest_match_degenerate:
  assumes "\<not> (alo \<le> ahi \<and> blo \<le> bhi)"
  shows "find_longest_match a b alo ahi blo bhi = (alo, blo, 0)"
proof -
  let ?r = "foldl (flm_row a (chain_b b) blo bhi) (Map.empty, (alo, blo, 0)) [alo..<ahi]"
  have "snd ?r = (alo, blo, 0)"
  proof (cases "alo \<le> ahi")
    case True
    then have "bhi \<le> blo" using assms by simp
    then show ?thesis by (rule flm_rows_empty_range)
  next
    case False
    then show ?thesis by simp
  qed
  moreover have "extend_left a b alo blo (alo, blo, 0) = (alo, blo, 0)"
    by (subst extend_left.simps) simp
  moreover have "extend_right a b ahi bhi (alo, blo, 0) = (alo, blo, 0)"
    using assms by (subst extend_right.simps) auto
  ultimately show ?thesis
    by (simp add: find_longest_match_def case_prod_beta)
qed

lemma find_longest_match_bounds:
  assumes "find_longest_match a b alo ahi blo bhi = (i, j, k)" "k \<noteq> 0"
  shows "alo \<le> i \<and> i + k \<le> ahi \<and> blo \<le> j \<and> j + k \<le> bhi"
proof (cases "alo \<le> ahi \<and> blo \<le> bhi")
  case True
  then show ?thesis
    using find_longest_match_ok[of alo ahi blo bhi a b] assms(1) by (simp add: best_ok_def)
next
  case False
  then show ?thesis using find_longest_match_degenerate[OF False, of a b] assms by simp
qed

subsection \<open>Matching blocks and the ratio\<close>

text \<open>
  \<open>get_matching_blocks\<close> keeps a stack of ranges, starting with \<open>(0, la, 0, lb)\<close>. It pops a
  range, records its longest match \<open>(i, j, k)\<close> when \<open>k\<close> is not zero, and pushes the range
  to the left of the match and then the range to its right, so the right range and all
  it produces are handled before the left one. The recorded blocks are then sorted,
  adjacent blocks are merged, and the sentinel \<open>(la, lb, 0)\<close> is appended.
\<close>

function queue_blocks :: "'a list \<Rightarrow> 'a list \<Rightarrow> nat \<Rightarrow> nat \<Rightarrow> nat \<Rightarrow> nat \<Rightarrow> match list" where
  "queue_blocks a b alo ahi blo bhi =
     (case find_longest_match a b alo ahi blo bhi of
        (i, j, k) \<Rightarrow>
          if k \<noteq> 0
          then (i, j, k)
               # (if i + k < ahi \<and> j + k < bhi then queue_blocks a b (i + k) ahi (j + k) bhi else [])
               @ (if alo < i \<and> blo < j then queue_blocks a b alo i blo j else [])
          else [])"
  by pat_completeness auto
termination
  apply (relation "measure (\<lambda>(a, b, alo, ahi, blo, bhi). ahi - alo)")
  apply simp
  subgoal for a b alo ahi blo bhi x1 x2 x1a x2a
    using find_longest_match_bounds[of a b alo ahi blo bhi x1 x1a x2a] by simp arith
  subgoal for a b alo ahi blo bhi x1 x2 x1a x2a
    using find_longest_match_bounds[of a b alo ahi blo bhi x1 x1a x2a] by simp arith
  done

declare queue_blocks.simps [simp del]

fun collapse :: "match \<Rightarrow> match list \<Rightarrow> match list" where
  "collapse (i1, j1, k1) [] = (if k1 \<noteq> 0 then [(i1, j1, k1)] else [])"
| "collapse (i1, j1, k1) ((i2, j2, k2) # rest) =
     (if i1 + k1 = i2 \<and> j1 + k1 = j2 then collapse (i1, j1, k1 + k2) rest
      else (if k1 \<noteq> 0 then [(i1, j1, k1)] else []) @ collapse (i2, j2, k2) rest)"

definition get_matching_blocks :: "'a list \<Rightarrow> 'a list \<Rightarrow> match list" where
  "get_matching_blocks a b =
     (let la = length a; lb = length b;
          matching_blocks = sort (queue_blocks a b 0 la 0 lb)
      in collapse (0, 0, 0) matching_blocks @ [(la, lb, 0)])"

subsection \<open>Floats\<close>

text \<open>
  A Python float is an IEEE 754 double, and is modelled by the rational number it denotes.
  An arithmetic operation on floats yields the double nearest to the exact result, a tie
  going to the double with the even significand: \<open>to_double\<close>. A double has a
  significand of 53 bits, so for \<open>2^e \<le> |x| < 2^(e+1)\<close> the doubles around \<open>x\<close> are the
  multiples of \<open>2^(e-52)\<close>. The two searches find \<open>e\<close> inside the range of the normal
  doubles; the values rounded here are \<open>0\<close> or lie between \<open>2 / (len(a) + len(b))\<close> and
  \<open>1\<close>, far from overflow and underflow.
\<close>

text \<open>The integer nearest to \<open>x\<close>, a tie going to the even one.\<close>

definition round_half_even :: "rat \<Rightarrow> int" where
  "round_half_even x =
     (let f = \<lfloor>x\<rfloor>; d = x - of_int f
      in if d < 1 / 2 then f else if d > 1 / 2 then f + 1 else if even f then f else f + 1)"

fun scale_up :: "nat \<Rightarrow> rat \<Rightarrow> nat \<Rightarrow> nat" where
  "scale_up 0 x k = k"
| "scale_up (Suc fuel) x k = (if x < 1 then scale_up fuel (2 * x) (k + 1) else k)"

fun scale_down :: "nat \<Rightarrow> rat \<Rightarrow> nat \<Rightarrow> nat" where
  "scale_down 0 x j = j"
| "scale_down (Suc fuel) x j = (if 2 \<le> x then scale_down fuel (x / 2) (j + 1) else j)"

definition to_double :: "rat \<Rightarrow> rat" where
  "to_double x =
     (if x = 0 then 0
      else if \<bar>x\<bar> < 1
      then (let n = 52 + scale_up 1074 \<bar>x\<bar> 0
            in sgn x * of_int (round_half_even (\<bar>x\<bar> * 2 ^ n)) / 2 ^ n)
      else (let j = scale_down 1023 \<bar>x\<bar> 0
            in if j \<le> 52
               then sgn x * of_int (round_half_even (\<bar>x\<bar> * 2 ^ (52 - j))) / 2 ^ (52 - j)
               else sgn x * of_int (round_half_even (\<bar>x\<bar> / 2 ^ (j - 52))) * 2 ^ (j - 52)))"

text \<open>
  \<open>ratio()\<close> is \<open>_calculate_ratio(matches, len(a) + len(b))\<close>, which is
  \<open>2.0 * matches / length\<close>, or \<open>1.0\<close> when \<open>length\<close> is zero. The product and the
  length are integers that a double holds exactly, so the float returned is the double
  nearest to the exact quotient.
\<close>

definition calculate_ratio :: "nat \<Rightarrow> nat \<Rightarrow> rat" where
  "calculate_ratio matches len =
     (if len \<noteq> 0 then to_double (2 * of_nat matches / of_nat len) else 1)"

definition ratio :: "'a list \<Rightarrow> 'a list \<Rightarrow> rat" where
  "ratio a b =
     (let matches = sum_list (map (\<lambda>triple. snd (snd triple)) (get_matching_blocks a b))
      in calculate_ratio matches (length a + length b))"

section \<open>The similarity scorer\<close>

definition calculate_similarity :: "string \<Rightarrow> string \<Rightarrow> rat" where
  "calculate_similarity str1 str2 = ratio (lower str1) (lower str2)"

section \<open>The reference table and the Impact Factor Resolver\<close>

text \<open>
  The table is the pandas DataFrame that \<open>load_journal_database\<close> builds: one row per
  journal with the columns \<open>journal_name\<close>, \<open>impact_factor\<close> and \<open>journal_name_lower\<close>, in
  file order, under the default index \<open>0, 1, 2, ...\<close>. Name cells are text. The DataFrame is
  a mutable object shared by all lookups; \<open>get_impact_factor\<close> assigns to its column
  \<open>similarity\<close>, which is absent (\<open>None\<close>) until the first such assignment. The impact
  factor cells are of any type \<open>'f\<close>: the code only copies them.
\<close>

record 'f row =
  journal_name :: string
  impact_factor :: 'f
  journal_name_lower :: string

record 'f dataframe =
  rows :: "'f row list"
  similarity :: "rat list option"

definition normalize_row :: "string \<times> 'f \<Rightarrow> 'f row" where
  "normalize_row p = (case p of (name, jif) \<Rightarrow>
     \<lparr>journal_name = name, impact_factor = jif, journal_name_lower = strip (lower name)\<rparr>)"

text \<open>\<open>load_journal_database\<close>, after \<open>pd.read_excel\<close> has returned the two columns.\<close>

definition load_journal_database :: "(string \<times> 'f) list \<Rightarrow> 'f dataframe" where
  "load_journal_database cells = \<lparr>rows = map normalize_row cells, similarity = None\<rparr>"

datatype match_type = Exact | Fuzzy

text \<open>The dictionary \<open>get_impact_factor\<close> returns; the key \<open>similarity\<close> is present only in
  a fuzzy result.\<close>

record 'f impact_info =
  info_journal_name :: string
  info_impact_factor :: 'f
  info_match_type :: match_type
  info_similarity :: "rat option"

text \<open>\<open>Series.idxmax()\<close>: the index of the first occurrence of the maximum; on an empty
  column it raises \<open>ValueError\<close>.\<close>

fun argmax_loop :: "rat list \<Rightarrow> nat \<Rightarrow> nat \<Rightarrow> rat \<Rightarrow> nat" where
  "argmax_loop [] i besti best = besti"
| "argmax_loop (x # xs) i besti best =
     (if x > best then argmax_loop xs (i + 1) i x else argmax_loop xs (i + 1) besti best)"

definition idxmax :: "rat list \<Rightarrow> error + nat" where
  "idxmax xs = (case xs of [] \<Rightarrow> Inl ValueError | x # rest \<Rightarrow> Inr (argmax_loop rest 1 0 x))"

text \<open>
  \<open>round(x, ndigits)\<close>, where \<open>x\<close> is the value read back from the row of the DataFrame:
  a \<open>numpy.float64\<close>. The built-in \<open>round\<close> calls the \<open>__round__\<close> of that type, which is
  numpy's \<open>x.round(ndigits)\<close>: without decimals it rounds to the nearest integer, a tie
  going to the even one (\<open>rint\<close>); with decimals it multiplies by the float
  \<open>10 ** decimals\<close>, applies \<open>rint\<close>, and divides by the same float. The product and the
  quotient are float operations, each rounded to a double. The value rounded is that of
  the double: the score \<open>203/400\<close> is a double just below \<open>0.5075\<close>, its product is a
  double below \<open>507.5\<close>, and the result is \<open>0.507\<close>. (The \<open>round\<close> of a built-in \<open>float\<close>
  rounds the exact decimal value of the double instead; the two differ on a score such
  as \<open>1/80\<close>, whose double lies just above \<open>0.0125\<close> and whose product is the double
  \<open>12.5\<close>: here \<open>0.012\<close>, there \<open>0.013\<close>.)
\<close>

definition round_float64 :: "rat \<Rightarrow> nat \<Rightarrow> rat" where
  "round_float64 x decimals =
     (if decimals = 0 then of_int (round_half_even x)
      else (let f = to_double (10 ^ decimals);
                ret = to_double (x * f);
                ret = of_int (round_half_even ret)
            in to_double (ret / f)))"

text \<open>
  \<open>get_impact_factor(journal_name, df, threshold)\<close>. The result is what the call returns
  or raises, paired with the DataFrame as the call leaves it. The threshold is a float;
  its default is the float that the literal \<open>0.85\<close> denotes.
\<close>

definition default_threshold :: rat where
  "default_threshold = to_double (85 / 100)"

definition get_impact_factor ::
  "string \<Rightarrow> 'f dataframe \<Rightarrow> rat \<Rightarrow> (error + 'f impact_info option) \<times> 'f dataframe" where
  "get_impact_factor name df threshold =
     (let journal_name_clean = strip (lower name);
          exact_match = filter (\<lambda>r. journal_name_lower r = journal_name_clean) (rows df)
      in case exact_match of
           row # _ \<Rightarrow>
             (Inr (Some \<lparr>info_journal_name = journal_name row,
                         info_impact_factor = impact_factor row,
                         info_match_type = Exact,
                         info_similarity = None\<rparr>), df)
         | [] \<Rightarrow>
             (let sims = map (\<lambda>r. calculate_similarity (journal_name_lower r) journal_name_clean)
                             (rows df);
                  df' = df\<lparr>similarity := Some sims\<rparr>
              in case idxmax sims of
                   Inl e \<Rightarrow> (Inl e, df')
                 | Inr i \<Rightarrow>
                     (let best_match = rows df' ! i; best_similarity = sims ! i
                      in if best_similarity \<ge> threshold
                         then (Inr (Some \<lparr>info_journal_name = journal_name best_match,
                                           info_impact_factor = impact_factor best_match,
                                           info_match_type = Fuzzy,
                                           info_similarity = Some (round_float64 best_similarity 3)\<rparr>),
                               df')
                         else (Inr None, df'))))"

section \<open>Regular expressions\<close>

text \<open>
  The patterns of the extractor are values of a small syntax of regular expressions, and
  \<open>re\<close>'s backtracking matcher is a function on them. A matcher state is the text
  already passed (reversed, so its head is the character just before the position), the
  text still ahead, and the text captured by group 1, if any. The matcher takes a
  continuation: what is to be matched after this expression. An expression offers its
  ways of matching to the continuation in \<open>re\<close>'s order of preference and the first one
  the continuation accepts is the result: a greedy star tries the longest run first, a
  lazy star the shortest, an alternative its left branch.

  \<open>X+\<close> is \<open>XX*\<close> and \<open>X{n}\<close> is \<open>n\<close> copies of \<open>X\<close>. The flag \<open>ic\<close> is \<open>re.IGNORECASE\<close>; it
  applies to literal characters (the one pattern compiled with it has no letter in a
  class).
\<close>

type_synonym mstate = "string \<times> string \<times> string option"

datatype regex =
    Lit string
  | Cls "char \<Rightarrow> bool"
  | Seq regex regex
  | Alt regex regex
  | Opt regex
  | Star "char \<Rightarrow> bool" bool
  | Group regex
  | Bol
  | Eol
  | WordB

fun lit_match :: "bool \<Rightarrow> string \<Rightarrow> (mstate \<Rightarrow> 'r option) \<Rightarrow> mstate \<Rightarrow> 'r option" where
  "lit_match ic [] k st = k st"
| "lit_match ic (x # xs) k (pre, [], g) = None"
| "lit_match ic (x # xs) k (pre, c # cs, g) =
     (if (if ic then lower_char x = lower_char c else x = c)
      then lit_match ic xs k (c # pre, cs, g) else None)"

fun star_greedy :: "(char \<Rightarrow> bool) \<Rightarrow> (mstate \<Rightarrow> 'r option) \<Rightarrow> mstate \<Rightarrow> 'r option" where
  "star_greedy P k (pre, [], g) = k (pre, [], g)"
| "star_greedy P k (pre, c # cs, g) =
     (if P c
      then (case star_greedy P k (c # pre, cs, g) of
              Some r \<Rightarrow> Some r
            | None \<Rightarrow> k (pre, c # cs, g))
      else k (pre, c # cs, g))"

fun star_lazy :: "(char \<Rightarrow> bool) \<Rightarrow> (mstate \<Rightarrow> 'r option) \<Rightarrow> mstate \<Rightarrow> 'r option" where
  "star_lazy P k (pre, [], g) = k (pre, [], g)"
| "star_lazy P k (pre, c # cs, g) =
     (case k (pre, c # cs, g) of
        Some r \<Rightarrow> Some r
      | None \<Rightarrow> if P c then star_lazy P k (c # pre, cs, g) else None)"

definition newline :: char where
  "newline = CHR 0x0A"

text \<open>\<open>\b\<close>: exactly one of the characters before and after the position is a word
  character (the ends of the text count as non-word).\<close>

definition at_word_boundary :: "mstate \<Rightarrow> bool" where
  "at_word_boundary st =
     (case st of (pre, rest, g) \<Rightarrow>
        (case pre of [] \<Rightarrow> False | c # _ \<Rightarrow> isword c)
        \<noteq> (case rest of [] \<Rightarrow> False | c # _ \<Rightarrow> isword c))"

text \<open>\<open>$\<close> without \<open>re.MULTILINE\<close>: the end of the text, or just before a newline that ends
  it. \<open>^\<close>: the start of the text.\<close>

fun matcher :: "bool \<Rightarrow> regex \<Rightarrow> (mstate \<Rightarrow> 'r option) \<Rightarrow> mstate \<Rightarrow> 'r option" where
  "matcher ic (Lit xs) k st = lit_match ic xs k st"
| "matcher ic (Cls P) k (pre, rest, g) =
     (case rest of [] \<Rightarrow> None | c # cs \<Rightarrow> if P c then k (c # pre, cs, g) else None)"
| "matcher ic (Seq r1 r2) k st = matcher ic r1 (matcher ic r2 k) st"
| "matcher ic (Alt r1 r2) k st =
     (case matcher ic r1 k st of Some r \<Rightarrow> Some r | None \<Rightarrow> matcher ic r2 k st)"
| "matcher ic (Opt r) k st =
     (case matcher ic r k st of Some r \<Rightarrow> Some r | None \<Rightarrow> k st)"
| "matcher ic (Star P greedy) k st = (if greedy then star_greedy P k st else star_lazy P k st)"
| "matcher ic (Group r) k (pre, rest, g) =
     matcher ic r
       (\<lambda>(pre', rest', g'). k (pre', rest', Some (rev (take (length pre' - length pre) pre'))))
       (pre, rest, g)"
| "matcher ic Bol k (pre, rest, g) = (if pre = [] then k (pre, rest, g) else None)"
| "matcher ic Eol k (pre, rest, g) =
     (if rest = [] \<or> rest = [newline] then k (pre, rest, g) else None)"
| "matcher ic WordB k st = (if at_word_boundary st then k st else None)"

definition Plus :: "(char \<Rightarrow> bool) \<Rightarrow> bool \<Rightarrow> regex" where
  "Plus P greedy = Seq (Cls P) (Star P greedy)"

fun Times :: "(char \<Rightarrow> bool) \<Rightarrow> nat \<Rightarrow> regex" where
  "Times P 0 = Lit []"
| "Times P (Suc n) = Seq (Cls P) (Times P n)"

text \<open>
  A match object: the text before the match (reversed) and the state at its end.
  \<open>re.search\<close> tries every start position from the left, the end of the text included.
\<close>

type_synonym match_object = "string \<times> mstate"

fun re_search_from :: "bool \<Rightarrow> regex \<Rightarrow> string \<Rightarrow> string \<Rightarrow> match_object option" where
  "re_search_from ic r pre [] =
     (case matcher ic r Some (pre, [], None) of Some st \<Rightarrow> Some (pre, st) | None \<Rightarrow> None)"
| "re_search_from ic r pre (c # cs) =
     (case matcher ic r Some (pre, c # cs, None) of
        Some st \<Rightarrow> Some (pre, st)
      | None \<Rightarrow> re_search_from ic r (c # pre) cs)"

definition re_search :: "bool \<Rightarrow> regex \<Rightarrow> string \<Rightarrow> match_object option" where
  "re_search ic r s = re_search_from ic r [] s"

text \<open>\<open>match.group(1)\<close> is \<open>None\<close> when the group took no part in the match; calling
  \<open>.strip()\<close> on it raises \<open>AttributeError\<close>.\<close>

definition group1_strip :: "match_object \<Rightarrow> error + string" where
  "group1_strip mo =
     (case mo of (start, pre, rest, g) \<Rightarrow>
        (case g of None \<Rightarrow> Inl AttributeError | Some s \<Rightarrow> Inr (strip s)))"

text \<open>\<open>re.split(pattern, s)[0]\<close>: the text before the first match, or all of \<open>s\<close> when
  there is none. (The pattern split on never matches the empty string.)\<close>

definition re_split_first :: "bool \<Rightarrow> regex \<Rightarrow> string \<Rightarrow> string" where
  "re_split_first ic r s =
     (case re_search ic r s of None \<Rightarrow> s | Some (start, st) \<Rightarrow> rev start)"

text \<open>
  \<open>re.sub(pattern, '', s)\<close>: the matches found from left to right are deleted, each search
  starting where the last match ended. Both patterns given to \<open>re.sub\<close> contain a \<open>+\<close>, so
  no match is empty; a position with no match, or with an empty one, keeps its character.
\<close>

function re_sub_empty_from :: "bool \<Rightarrow> regex \<Rightarrow> string \<Rightarrow> string \<Rightarrow> string" where
  "re_sub_empty_from ic r pre rest =
     (case matcher ic r Some (pre, rest, None) of
        Some (pre', rest', g) \<Rightarrow>
          if length rest' < length rest then re_sub_empty_from ic r pre' rest'
          else (case rest of [] \<Rightarrow> [] | c # cs \<Rightarrow> c # re_sub_empty_from ic r (c # pre) cs)
      | None \<Rightarrow> (case rest of [] \<Rightarrow> [] | c # cs \<Rightarrow> c # re_sub_empty_from ic r (c # pre) cs))"
  by pat_completeness auto
termination
  by (relation "measure (\<lambda>(ic, r, pre, rest). length rest)") auto

declare re_sub_empty_from.simps [simp del]

definition re_sub_empty :: "bool \<Rightarrow> regex \<Rightarrow> string \<Rightarrow> string" where
  "re_sub_empty ic r s = re_sub_empty_from ic r [] s"

section \<open>The Journal Name Extractor\<close>

subsection \<open>Character classes and patterns\<close>

definition not_word_not_space :: "char \<Rightarrow> bool" where
  "not_word_not_space c = (\<not> isword c \<and> \<not> isspace c)"

definition any_char :: "char \<Rightarrow> bool" where
  "any_char c = (c \<noteq> newline)"

definition digit_punct :: "char \<Rightarrow> bool" where
  "digit_punct c = (isdecimal c \<or> c = CHR '','' \<or> c = CHR ''.'' \<or> c = CHR '':'' \<or> c = CHR ''-'')"

definition name_char :: "char \<Rightarrow> bool" where
  "name_char c = (isupper_ascii c \<or> islower_ascii c \<or> isspace c
                  \<or> c = CHR ''&'' \<or> c = CHR ''-'' \<or> c = CHR '':'')"

text \<open>\<open>^[^\w\s]+\<close>\<close>

definition prefix_symbols_re :: regex where
  "prefix_symbols_re = Seq Bol (Plus not_word_not_space True)"

text \<open>\<open>\s*doi:\<close>\<close>

definition doi_re :: regex where
  "doi_re = Seq (Star isspace True) (Lit ''doi:'')"

text \<open>\<open>^(.+?)\s+(?:19|20)\d{2}\<close>\<close>

definition year_re :: regex where
  "year_re = Seq Bol (Seq (Group (Plus any_char False))
               (Seq (Plus isspace True) (Seq (Alt (Lit ''19'') (Lit ''20'')) (Times isdecimal 2))))"

text \<open>\<open>\s*[\d,.:\-]+\s*$\<close>\<close>

definition trailing_re :: regex where
  "trailing_re = Seq (Star isspace True) (Seq (Plus digit_punct True) (Seq (Star isspace True) Eol))"

text \<open>\<open>[A-Z][A-Za-z\s&\-:]+?\<close> and \<open>[A-Z][A-Za-z\s&\-:]+\<close>\<close>

definition name_re :: "bool \<Rightarrow> regex" where
  "name_re greedy = Seq (Cls isupper_ascii) (Plus name_char greedy)"

text \<open>\<open>Published in:?\s*([A-Z][A-Za-z\s&\-:]+?)(?:\n|,|Vol|\d{4})\<close>\<close>

definition published_in_re :: regex where
  "published_in_re =
     Seq (Lit ''Published in'') (Seq (Opt (Lit '':'')) (Seq (Star isspace True)
       (Seq (Group (name_re False))
            (Alt (Lit [newline]) (Alt (Lit '','') (Alt (Lit ''Vol'') (Times isdecimal 4)))))))"

text \<open>\<open>([A-Z][A-Za-z\s&\-:]+?)\s+Vol\.\s*\d+\<close>\<close>

definition vol_re :: regex where
  "vol_re =
     Seq (Group (name_re False)) (Seq (Plus isspace True) (Seq (Lit ''Vol.'')
       (Seq (Star isspace True) (Plus isdecimal True))))"

text \<open>\<open>Journal:\s*([A-Z][A-Za-z\s&\-:]+)\<close>\<close>

definition journal_re :: regex where
  "journal_re = Seq (Lit ''Journal:'') (Seq (Star isspace True) (Group (name_re True)))"

text \<open>The copyright sign followed by \<open>.*?(\b[A-Z][A-Za-z\s&\-:]+?)\s+\d{4}\<close>\<close>

definition copyright_re :: regex where
  "copyright_re =
     Seq (Lit [CHR 0xA9]) (Seq (Star any_char False)
       (Seq (Group (Seq WordB (name_re False))) (Seq (Plus isspace True) (Times isdecimal 4))))"

definition patterns :: "regex list" where
  "patterns = [published_in_re, vol_re, journal_re, copyright_re]"

subsection \<open>The subject field\<close>

text \<open>\<open>sub in s\<close> on strings.\<close>

fun contains :: "string \<Rightarrow> string \<Rightarrow> bool" where
  "contains sub [] = (sub = [])"
| "contains sub (c # cs) = (take (length sub) (c # cs) = sub \<or> contains sub cs)"

text \<open>
  \<open>extract_journal_from_subject\<close> tries four rules on the stripped subject, each one
  returning when it yields a name and falling through to the next when it does not.

  Rule 1: the text before the first comma, stripped, when the subject has a comma and
  that text has a letter; leading characters that are neither word characters nor
  whitespace are removed from it.
\<close>

definition comma_rule :: "string \<Rightarrow> string option" where
  "comma_rule subject =
     (if CHR '','' \<in> set subject
      then (let journal_name = strip (takeWhile (\<lambda>c. c \<noteq> CHR '','') subject)
            in if journal_name \<noteq> [] \<and> (\<exists>c \<in> set journal_name. isalpha c)
               then Some (re_sub_empty False prefix_symbols_re journal_name)
               else None)
      else None)"

text \<open>Rule 2: the text before \<open>doi:\<close>, stripped, when it is not empty.\<close>

definition doi_rule :: "string \<Rightarrow> string option" where
  "doi_rule subject =
     (if contains ''doi:'' (lower subject)
      then (let parts0 = re_split_first True doi_re subject
            in if strip parts0 \<noteq> [] then Some (strip parts0) else None)
      else None)"

text \<open>Rule 3: the text before a year.\<close>

definition year_rule :: "string \<Rightarrow> error + string option" where
  "year_rule subject =
     (case re_search False year_re subject of
        Some year_match \<Rightarrow>
          (case group1_strip year_match of Inl e \<Rightarrow> Inl e | Inr s \<Rightarrow> Inr (Some s))
      | None \<Rightarrow> Inr None)"

text \<open>Rule 4: the subject without its trailing digits and punctuation, when more than
  three characters are left.\<close>

definition trailing_rule :: "string \<Rightarrow> string option" where
  "trailing_rule subject =
     (let cleaned = strip (re_sub_empty False trailing_re subject)
      in if cleaned \<noteq> [] \<and> length cleaned > 3 then Some cleaned else None)"

definition rules_after_comma :: "string \<Rightarrow> error + string option" where
  "rules_after_comma subject =
     (case doi_rule subject of
        Some name \<Rightarrow> Inr (Some name)
      | None \<Rightarrow>
          (case year_rule subject of
             Inl e \<Rightarrow> Inl e
           | Inr (Some name) \<Rightarrow> Inr (Some name)
           | Inr None \<Rightarrow> Inr (trailing_rule subject)))"

definition extract_journal_from_subject :: "string \<Rightarrow> error + string option" where
  "extract_journal_from_subject subject0 =
     (if subject0 = [] then Inr None
      else (let subject = strip subject0
            in case comma_rule subject of
                 Some name \<Rightarrow> Inr (Some name)
               | None \<Rightarrow> rules_after_comma subject))"

subsection \<open>Text patterns\<close>

fun search_patterns :: "regex list \<Rightarrow> string \<Rightarrow> error + string option" where
  "search_patterns [] text = Inr None"
| "search_patterns (pattern # rest) text =
     (case re_search False pattern text of
        Some m \<Rightarrow> (case group1_strip m of Inl e \<Rightarrow> Inl e | Inr s \<Rightarrow> Inr (Some s))
      | None \<Rightarrow> search_patterns rest text)"

text \<open>\<open>extract_journal_name(text, metadata)\<close>: the subject field of the metadata first,
  when it is there and not empty and yields a non-empty name; then the patterns, on the
  first 2000 characters of the text.\<close>

definition extract_journal_name :: "string \<Rightarrow> (string \<rightharpoonup> string) \<Rightarrow> error + string option" where
  "extract_journal_name text metadata =
     (case (case metadata ''/Subject'' of
              None \<Rightarrow> Inr None
            | Some subject \<Rightarrow>
                if subject \<noteq> [] then extract_journal_from_subject subject else Inr None) of
        Inl e \<Rightarrow> Inl e
      | Inr (Some name) \<Rightarrow>
          if name \<noteq> [] then Inr (Some name)
          else search_patterns patterns (take 2000 text)
      | Inr None \<Rightarrow> search_patterns patterns (take 2000 text))"

section \<open>Processing documents\<close>

text \<open>
  A PDF file is what the two reading functions make of it: \<open>extract_text_from_pdf\<close>
  returns the text of its first pages or raises, and \<open>extract_metadata\<close> reads its
  document information or raises. An exception is kept as its message \<open>str(e)\<close>.
\<close>

record pdf =
  pdf_path :: string
  pdf_name :: string
  extract_text_from_pdf :: "string + string"
  read_metadata :: "string + (string \<rightharpoonup> string)"

text \<open>\<open>extract_metadata\<close> keeps the entries whose value is not empty.\<close>

definition extract_metadata :: "pdf \<Rightarrow> string + (string \<rightharpoonup> string)" where
  "extract_metadata file =
     (case read_metadata file of
        Inl e \<Rightarrow> Inl e
      | Inr metadata \<Rightarrow>
          Inr (\<lambda>k. case metadata k of None \<Rightarrow> None | Some v \<Rightarrow> if v \<noteq> [] then Some v else None))"

text \<open>
  The outcome dictionary. Its \<open>status\<close> is \<open>'success'\<close>, \<open>'not_found'\<close> or \<open>'error'\<close>. The
  four messages of the source are constructors: \<open>Load_failed e\<close> and \<open>Read_failed e\<close> are the
  two messages that end in \<open>str(e)\<close>, \<open>Journal_not_recognised\<close> is the message of an
  extraction that found no name, \<open>Journal_not_matched\<close> that of a lookup that found no
  entry. A key that the dictionary does not have is \<open>None\<close>; the key \<open>similarity\<close> of a
  successful outcome holds \<open>impact_info.get('similarity')\<close>, which is itself \<open>None\<close> after an
  exact match.
\<close>

datatype status = Success | Not_found | Error

datatype message = Load_failed string | Read_failed string
  | Journal_not_recognised | Journal_not_matched

record 'f outcome =
  status :: status
  message :: "message option"
  extracted_text_preview :: "string option"
  extracted_journal_name :: "string option"
  matched_journal_name :: "string option"
  result_impact_factor :: "'f option"
  result_match_type :: "match_type option"
  result_similarity :: "rat option option"
  file_path :: "string option"
  file_name :: "string option"

definition error_outcome :: "message \<Rightarrow> string option \<Rightarrow> 'f outcome" where
  "error_outcome msg preview =
     \<lparr>status = Error, message = Some msg, extracted_text_preview = preview,
      extracted_journal_name = None, matched_journal_name = None,
      result_impact_factor = None, result_match_type = None, result_similarity = None,
      file_path = None, file_name = None\<rparr>"

definition not_found_outcome :: "string \<Rightarrow> 'f outcome" where
  "not_found_outcome name =
     \<lparr>status = Not_found, message = Some Journal_not_matched, extracted_text_preview = None,
      extracted_journal_name = Some name, matched_journal_name = None,
      result_impact_factor = None, result_match_type = None, result_similarity = None,
      file_path = None, file_name = None\<rparr>"

definition success_outcome :: "string \<Rightarrow> 'f impact_info \<Rightarrow> 'f outcome" where
  "success_outcome name impact_info =
     \<lparr>status = Success, message = None, extracted_text_preview = None,
      extracted_journal_name = Some name,
      matched_journal_name = Some (info_journal_name impact_info),
      result_impact_factor = Some (info_impact_factor impact_info),
      result_match_type = Some (info_match_type impact_info),
      result_similarity = Some (info_similarity impact_info),
      file_path = None, file_name = None\<rparr>"

text \<open>
  \<open>process_pdf\<close> from the point where the table is at hand (lines 231 to 268). The two
  reads are inside one \<open>try\<close>; nothing after it is. The lookup uses the default
  threshold. The result is the outcome, or the exception that leaves the function, and the
  table as the call leaves it.
\<close>

definition process_pdf_with :: "pdf \<Rightarrow> 'f dataframe \<Rightarrow> (error + 'f outcome) \<times> 'f dataframe" where
  "process_pdf_with file journal_df =
     (case extract_text_from_pdf file of
        Inl e \<Rightarrow> (Inr (error_outcome (Read_failed e) None), journal_df)
      | Inr text \<Rightarrow>
          (case extract_metadata file of
             Inl e \<Rightarrow> (Inr (error_outcome (Read_failed e) None), journal_df)
           | Inr metadata \<Rightarrow>
               (case extract_journal_name text metadata of
                  Inl err \<Rightarrow> (Inl err, journal_df)
                | Inr None \<Rightarrow>
                    (Inr (error_outcome Journal_not_recognised (Some (take 500 text))), journal_df)
                | Inr (Some name) \<Rightarrow>
                    if name = []
                    then (Inr (error_outcome Journal_not_recognised (Some (take 500 text))),
                          journal_df)
                    else (case get_impact_factor name journal_df default_threshold of
                            (Inl err, df') \<Rightarrow> (Inl err, df')
                          | (Inr None, df') \<Rightarrow> (Inr (not_found_outcome name), df')
                          | (Inr (Some impact_info), df') \<Rightarrow>
                              (Inr (success_outcome name impact_info), df')))))"

text \<open>
  \<open>process_pdf(pdf_path, journal_df)\<close>. Without a table it loads one; \<open>database\<close> is what
  \<open>load_journal_database()\<close> then does: it raises or returns the table. A table loaded
  here is local to the call.
\<close>

definition process_pdf ::
  "(string + 'f dataframe) \<Rightarrow> pdf \<Rightarrow> 'f dataframe option
     \<Rightarrow> (error + 'f outcome) \<times> 'f dataframe option" where
  "process_pdf database file journal_df =
     (case journal_df of
        None \<Rightarrow>
          (case database of
             Inl e \<Rightarrow> (Inr (error_outcome (Load_failed e) None), None)
           | Inr df \<Rightarrow> (fst (process_pdf_with file df), None))
      | Some df \<Rightarrow> (case process_pdf_with file df of (r, df') \<Rightarrow> (r, Some df')))"

text \<open>
  The loop of \<open>batch_process_pdfs\<close> over the files found: each file is processed with the
  shared table, its outcome gets the keys \<open>file_path\<close> and \<open>file_name\<close> and is appended to
  the results. An exception that leaves \<open>process_pdf\<close> leaves the loop and the function.
\<close>

fun batch_loop :: "pdf list \<Rightarrow> 'f dataframe \<Rightarrow> 'f outcome list
                     \<Rightarrow> (error + 'f outcome list) \<times> 'f dataframe" where
  "batch_loop [] journal_df batch_results = (Inr batch_results, journal_df)"
| "batch_loop (pdf_file # rest) journal_df batch_results =
     (case process_pdf_with pdf_file journal_df of
        (Inl err, df') \<Rightarrow> (Inl err, df')
      | (Inr batch_result, df') \<Rightarrow>
          batch_loop rest df'
            (batch_results @ [batch_result\<lparr>file_path := Some (pdf_path pdf_file),
                                             file_name := Some (pdf_name pdf_file)\<rparr>]))"

text \<open>
  \<open>batch_process_pdfs\<close>, given the sorted list of files that \<open>find_all_pdfs\<close> returned. With
  no file it returns the empty list before any table is loaded. The table is loaded here
  when none is passed, outside any \<open>try\<close>: a failure to load leaves the function as the
  exception \<open>LoadError\<close>.
\<close>

datatype batch_error = LoadError string | Raised error

definition batch_process_pdfs ::
  "(string + 'f dataframe) \<Rightarrow> pdf list \<Rightarrow> 'f dataframe option \<Rightarrow> batch_error + 'f outcome list" where
  "batch_process_pdfs database pdf_files journal_df =
     (if length pdf_files = 0 then Inr []
      else (case (case journal_df of None \<Rightarrow> database | Some df \<Rightarrow> Inr df) of
              Inl e \<Rightarrow> Inl (LoadError e)
            | Inr df \<Rightarrow>
                (case fst (batch_loop pdf_files df []) of
                   Inl err \<Rightarrow> Inl (Raised err)
                 | Inr batch_results \<Rightarrow> Inr batch_results)))"

section \<open>Properties of floats\<close>

lemma round_half_even_near: "\<bar>of_int (round_half_even x) - x\<bar> \<le> 1 / 2"
proof -
  have lo: "of_int \<lfloor>x\<rfloor> \<le> x" and hi: "x < of_int \<lfloor>x\<rfloor> + 1"
    by linarith+
  show ?thesis
    unfolding round_half_even_def Let_def using lo hi
    by (simp add: abs_le_iff)
qed

lemma round_half_even_nonneg: "0 \<le> x \<Longrightarrow> 0 \<le> round_half_even x"
  by (auto simp: round_half_even_def Let_def)

lemma round_half_even_le:
  assumes "x \<le> of_int n"
  shows "round_half_even x \<le> n"
proof (cases "x = of_int n")
  case True
  then show ?thesis by (simp add: round_half_even_def)
next
  case False
  then have "x < of_int n" using assms by simp
  then have "\<lfloor>x\<rfloor> < n" by (simp add: floor_less_iff)
  then have "\<lfloor>x\<rfloor> + 1 \<le> n" by simp
  moreover have "round_half_even x \<le> \<lfloor>x\<rfloor> + 1"
    by (simp add: round_half_even_def Let_def)
  ultimately show ?thesis by linarith
qed

lemma to_double_one: "to_double 1 = 1"
  by code_simp

lemma to_double_unit:
  assumes "0 \<le> x" "x \<le> 1"
  shows "0 \<le> to_double x \<and> to_double x \<le> 1"
proof -
  consider "x = 0" | "x = 1" | "0 < x" "x < 1" using assms by fastforce
  then show ?thesis
  proof cases
    case 1
    then show ?thesis by (simp add: to_double_def)
  next
    case 2
    then show ?thesis by (simp add: to_double_one)
  next
    case 3
    define n where "n = 52 + scale_up 1074 \<bar>x\<bar> 0"
    have d: "to_double x = of_int (round_half_even (x * 2 ^ n)) / 2 ^ n"
      using 3 by (simp add: to_double_def n_def Let_def)
    have "x * 2 ^ n \<le> of_int (2 ^ n)" using 3 by simp
    then have "round_half_even (x * 2 ^ n) \<le> 2 ^ n" by (rule round_half_even_le)
    then have "(of_int (round_half_even (x * 2 ^ n)) :: rat) \<le> of_int (2 ^ n)"
      by (simp only: of_int_le_iff)
    then have "(of_int (round_half_even (x * 2 ^ n)) :: rat) / 2 ^ n \<le> 1"
      by (simp add: divide_le_eq_1)
    moreover have "0 \<le> round_half_even (x * 2 ^ n)"
      using 3 by (intro round_half_even_nonneg) simp
    ultimately show ?thesis unfolding d by simp
  qed
qed

lemma scale_down_le: "x < 2 ^ Suc m \<Longrightarrow> scale_down fuel x j \<le> j + m"
proof (induction fuel arbitrary: x j m)
  case 0
  then show ?case by simp
next
  case (Suc fuel)
  show ?case
  proof (cases "2 \<le> x")
    case True
    then obtain m' where m: "m = Suc m'" using Suc.prems by (cases m) auto
    have "x / 2 < 2 ^ Suc m'" using Suc.prems m by simp
    then have "scale_down fuel (x / 2) (j + 1) \<le> (j + 1) + m'" by (rule Suc.IH)
    then show ?thesis using True m by simp
  next
    case False
    then show ?thesis by simp
  qed
qed

lemma to_double_near:
  assumes "0 \<le> x" "x < 1024"
  shows "\<bar>to_double x - x\<bar> \<le> 1 / 2 ^ 44"
proof -
  consider "x = 0" | "0 < x" "x < 1" | "1 \<le> x" using assms by fastforce
  then show ?thesis
  proof cases
    case 1
    then show ?thesis by (simp add: to_double_def)
  next
    case 2
    define n where "n = 52 + scale_up 1074 \<bar>x\<bar> 0"
    have d: "to_double x = of_int (round_half_even (x * 2 ^ n)) / 2 ^ n"
      using 2 by (simp add: to_double_def n_def Let_def)
    have "\<bar>of_int (round_half_even (x * 2 ^ n)) - x * 2 ^ n\<bar> \<le> 1 / 2"
      by (rule round_half_even_near)
    then have "\<bar>of_int (round_half_even (x * 2 ^ n)) / 2 ^ n - x\<bar> \<le> 1 / 2 / 2 ^ n"
      by (simp add: abs_le_iff field_simps)
    moreover have "(1::rat) / 2 / 2 ^ n \<le> 1 / 2 ^ 44"
    proof -
      have "(2::rat) ^ 44 \<le> 2 ^ Suc n" by (rule power_increasing) (simp_all add: n_def)
      then show ?thesis by (simp add: field_simps)
    qed
    ultimately show ?thesis unfolding d by linarith
  next
    case 3
    define j where "j = scale_down 1023 x 0"
    have "x < 2 ^ Suc 9" using assms by simp
    then have "scale_down 1023 x 0 \<le> 0 + 9" by (rule scale_down_le)
    then have j: "j \<le> 9" by (simp add: j_def)
    define n where "n = 52 - j"
    have n: "43 \<le> n" using j by (simp add: n_def)
    have d: "to_double x = of_int (round_half_even (x * 2 ^ n)) / 2 ^ n"
      using 3 j by (simp add: to_double_def j_def[symmetric] n_def Let_def)
    have "\<bar>of_int (round_half_even (x * 2 ^ n)) - x * 2 ^ n\<bar> \<le> 1 / 2"
      by (rule round_half_even_near)
    then have "\<bar>of_int (round_half_even (x * 2 ^ n)) / 2 ^ n - x\<bar> \<le> 1 / 2 / 2 ^ n"
      by (simp add: abs_le_iff field_simps)
    moreover have "(1::rat) / 2 / 2 ^ n \<le> 1 / 2 ^ 44"
    proof -
      have "(2::rat) ^ 44 \<le> 2 ^ Suc n" by (rule power_increasing) (use n in simp_all)
      then show ?thesis by (simp add: field_simps)
    qed
    ultimately show ?thesis unfolding d by linarith
  qed
qed

lemma to_double_1000: "to_double 1000 = 1000"
  by code_simp

lemma round_float64_3:
  assumes "0 \<le> x" "x \<le> 1"
  shows "\<exists>n::int. round_float64 x 3 = to_double (of_int n / 1000)
           \<and> \<bar>of_int n - 1000 * x\<bar> \<le> 1 / 2 + 1 / 2 ^ 44"
proof -
  define y where "y = to_double (x * 1000)"
  have "0 \<le> x * 1000" "x * 1000 < 1024" using assms by simp_all
  then have "\<bar>y - x * 1000\<bar> \<le> 1 / 2 ^ 44" unfolding y_def by (rule to_double_near)
  moreover have "\<bar>of_int (round_half_even y) - y\<bar> \<le> 1 / 2" by (rule round_half_even_near)
  ultimately have "\<bar>of_int (round_half_even y) - 1000 * x\<bar> \<le> 1 / 2 + 1 / 2 ^ 44"
    by linarith
  moreover have "round_float64 x 3 = to_double (of_int (round_half_even y) / 1000)"
    by (simp add: round_float64_def to_double_1000 y_def Let_def)
  ultimately show ?thesis by blast
qed

section \<open>Properties of the Impact Factor Resolver\<close>

definition nature_table :: "rat dataframe" where
  "nature_table = load_journal_database
     [(''Nature Communications'', 83 / 5), (''Nature'', 139 / 2), (''NATURE '', 1)]"

lemma find_filter: "find P xs = Some r \<Longrightarrow> \<exists>rest. filter P xs = r # rest"
  by (induction xs) (auto split: if_splits)

lemma get_impact_factor_ignores_similarity:
  "fst (get_impact_factor name (df\<lparr>similarity := s\<rparr>) threshold)
     = fst (get_impact_factor name df threshold)"
  by (simp add: get_impact_factor_def Let_def split: list.splits sum.splits)

text \<open>
  C4 (exact-match precedence). When some entry's normalized name equals the normalized
  candidate, the lookup returns an exact match carrying the journal name and the impact
  factor of the first such entry in table order, whatever the other entries and the
  threshold are; the table is left as it was.
\<close>

theorem exact_match_precedence:
  assumes "find (\<lambda>r. journal_name_lower r = strip (lower name)) (rows df) = Some r"
  shows "get_impact_factor name df threshold =
           (Inr (Some \<lparr>info_journal_name = journal_name r, info_impact_factor = impact_factor r,
                       info_match_type = Exact, info_similarity = None\<rparr>), df)"
proof -
  obtain rest where "filter (\<lambda>r. journal_name_lower r = strip (lower name)) (rows df) = r # rest"
    using find_filter[OF assms] by blast
  then show ?thesis by (simp add: get_impact_factor_def)
qed

text \<open>The candidate \<open>"nature "\<close> against a table with two entries normalizing to
  \<open>"nature"\<close>: the first of them is returned.\<close>

theorem exact_match_precedence_witness:
  "find (\<lambda>r. journal_name_lower r = strip (lower ''nature '')) (rows nature_table)
     = Some \<lparr>journal_name = ''Nature'', impact_factor = 139 / 2, journal_name_lower = ''nature''\<rparr>
   \<and> get_impact_factor ''nature '' nature_table (17 / 20) =
           (Inr (Some \<lparr>info_journal_name = ''Nature'', info_impact_factor = 139 / 2,
                       info_match_type = Exact, info_similarity = None\<rparr>), nature_table)"
proof -
  have h: "find (\<lambda>r. journal_name_lower r = strip (lower ''nature '')) (rows nature_table)
     = Some \<lparr>journal_name = ''Nature'', impact_factor = 139 / 2, journal_name_lower = ''nature''\<rparr>"
    by code_simp
  show ?thesis using h exact_match_precedence[OF h, of "17 / 20"] by simp
qed

text \<open>
  C3 (the resolver never raises). On a table with no rows there is no exact match, the
  similarity column is empty, and \<open>idxmax\<close> raises \<open>ValueError\<close>: the lookup raises for
  every candidate and threshold.
\<close>

theorem get_impact_factor_empty_table:
  "fst (get_impact_factor name \<lparr>rows = [], similarity = s\<rparr> threshold) = Inl ValueError"
  by (simp add: get_impact_factor_def idxmax_def)

text \<open>
  C2 (the table is unchanged by a lookup), as stated: false. A lookup of \<open>"Science"\<close>,
  which has no exact match, leaves the table with a \<open>similarity\<close> column it did not have.
\<close>

theorem lookup_changes_similarity_counterexample:
  "snd (get_impact_factor ''Science'' nature_table (17 / 20)) \<noteq> nature_table"
  by code_simp

text \<open>
  C2, amended. A lookup that finds an exact match leaves the table unchanged. Any other
  lookup sets the column \<open>similarity\<close> to the similarity of each entry's normalized name to
  the normalized candidate, and changes nothing else: the rows, with their names,
  normalized names and impact factors, are never changed. What a later lookup returns
  does not depend on that column, so it is the same after the lookup as before it.
\<close>

theorem lookup_frame:
  fixes df :: "'f dataframe"
  defines "clean \<equiv> \<lambda>name. strip (lower name)"
  shows "snd (get_impact_factor name df threshold) =
           (if filter (\<lambda>r. journal_name_lower r = clean name) (rows df) \<noteq> [] then df
            else df\<lparr>similarity :=
                     Some (map (\<lambda>r. calculate_similarity (journal_name_lower r) (clean name)) (rows df))\<rparr>)
       \<and> rows (snd (get_impact_factor name df threshold)) = rows df
       \<and> fst (get_impact_factor name' (snd (get_impact_factor name df threshold)) threshold')
           = fst (get_impact_factor name' df threshold')"
proof -
  have 1: "snd (get_impact_factor name df threshold) =
           (if filter (\<lambda>r. journal_name_lower r = clean name) (rows df) \<noteq> [] then df
            else df\<lparr>similarity :=
                     Some (map (\<lambda>r. calculate_similarity (journal_name_lower r) (clean name)) (rows df))\<rparr>)"
    by (simp add: get_impact_factor_def clean_def Let_def split: list.splits sum.splits)
  show ?thesis
    unfolding 1 by (simp add: get_impact_factor_ignores_similarity)
qed

theorem lookup_frame_witness:
  "snd (get_impact_factor ''Science'' nature_table (17 / 20))
     = nature_table\<lparr>similarity := Some [to_double (1 / 7), to_double (4 / 13), to_double (4 / 13)]\<rparr>
   \<and> snd (get_impact_factor ''NATURE'' nature_table (17 / 20)) = nature_table
   \<and> fst (get_impact_factor ''Natur'' (snd (get_impact_factor ''Science'' nature_table (17 / 20))) (9 / 10))
       = fst (get_impact_factor ''Natur'' nature_table (9 / 10))"
proof -
  have a: "filter (\<lambda>r. journal_name_lower r = strip (lower ''Science'')) (rows nature_table) = []"
    by code_simp
  have b: "map (\<lambda>r. calculate_similarity (journal_name_lower r) (strip (lower ''Science'')))
             (rows nature_table) = [to_double (1 / 7), to_double (4 / 13), to_double (4 / 13)]"
    by code_simp
  have c: "filter (\<lambda>r. journal_name_lower r = strip (lower ''NATURE'')) (rows nature_table) \<noteq> []"
    by code_simp
  note s = lookup_frame[of "''Science''" nature_table "17 / 20" "''Natur''" "9 / 10"]
  note n = lookup_frame[of "''NATURE''" nature_table "17 / 20"]
  have 1: "snd (get_impact_factor ''Science'' nature_table (17 / 20))
     = nature_table\<lparr>similarity := Some [to_double (1 / 7), to_double (4 / 13), to_double (4 / 13)]\<rparr>"
    using conjunct1[OF s] a b by simp
  have 2: "snd (get_impact_factor ''NATURE'' nature_table (17 / 20)) = nature_table"
    using conjunct1[OF n] c by simp
  show ?thesis
    using 1 2 conjunct2[OF conjunct2[OF s]] by blast
qed

lemma argmax_loop_first_max:
  assumes "length pre = i" "besti < i" "pre ! besti = best"
    and "\<forall>j<i. pre ! j \<le> best" "\<forall>j<besti. pre ! j < best"
  shows "argmax_loop xs i besti best < length (pre @ xs)
       \<and> (\<forall>j<length (pre @ xs). (pre @ xs) ! j \<le> (pre @ xs) ! argmax_loop xs i besti best)
       \<and> (\<forall>j<argmax_loop xs i besti best. (pre @ xs) ! j < (pre @ xs) ! argmax_loop xs i besti best)"
  using assms
proof (induction xs arbitrary: pre i besti best)
  case Nil
  then show ?case by simp
next
  case (Cons x xs)
  let ?pre = "pre @ [x]"
  have len: "length ?pre = i + 1" using Cons.prems(1) by simp
  show ?case
  proof (cases "x > best")
    case True
    have a: "i < i + 1" by simp
    have b: "?pre ! i = x" using Cons.prems(1) by (simp add: nth_append)
    have c: "\<forall>j<i + 1. ?pre ! j \<le> x"
      using Cons.prems(1,4) True by (auto simp: nth_append less_Suc_eq)
    have d: "\<forall>j<i. ?pre ! j < x"
      using Cons.prems(1,4) True by (auto simp: nth_append)
    show ?thesis using Cons.IH[OF len a b c d] True by simp
  next
    case False
    have a: "besti < i + 1" using Cons.prems(2) by simp
    have b: "?pre ! besti = best" using Cons.prems(1,2,3) by (simp add: nth_append)
    have c: "\<forall>j<i + 1. ?pre ! j \<le> best"
      using Cons.prems(1,4) False by (auto simp: nth_append less_Suc_eq)
    have d: "\<forall>j<besti. ?pre ! j < best"
      using Cons.prems(1,2,5) by (auto simp: nth_append)
    show ?thesis using Cons.IH[OF len a b c d] False by simp
  qed
qed

lemma idxmax_first_max:
  assumes "xs \<noteq> []"
  shows "\<exists>i. idxmax xs = Inr i \<and> i < length xs \<and> (\<forall>j<length xs. xs ! j \<le> xs ! i)
            \<and> (\<forall>j<i. xs ! j < xs ! i)"
proof -
  obtain x rest where xs: "xs = x # rest" using assms by (cases xs) auto
  have "argmax_loop rest 1 0 x < length ([x] @ rest)
       \<and> (\<forall>j<length ([x] @ rest). ([x] @ rest) ! j \<le> ([x] @ rest) ! argmax_loop rest 1 0 x)
       \<and> (\<forall>j<argmax_loop rest 1 0 x. ([x] @ rest) ! j < ([x] @ rest) ! argmax_loop rest 1 0 x)"
    by (rule argmax_loop_first_max) auto
  then show ?thesis using xs by (simp add: idxmax_def)
qed

section \<open>Properties of the similarity scorer\<close>

subsection \<open>The index of positions\<close>

definition positions :: "'a list \<Rightarrow> 'a \<Rightarrow> nat list" where
  "positions b c = filter (\<lambda>j. b ! j = c) [0..<length b]"

lemma positions_snoc:
  "positions (b @ [x]) c = positions b c @ (if x = c then [length b] else [])"
proof -
  have "filter (\<lambda>j. (b @ [x]) ! j = c) [0..<length b] = filter (\<lambda>j. b ! j = c) [0..<length b]"
    by (rule filter_cong) (auto simp: nth_append)
  then show ?thesis by (simp add: positions_def)
qed

lemma positions_empty: "c \<notin> set b \<Longrightarrow> positions b c = []"
  by (auto simp: positions_def filter_empty_conv)

lemma b2j_fold:
  "foldl setdefault_append Map.empty (enumerate 0 b) c
     = (if c \<in> set b then Some (positions b c) else None)"
proof (induction b rule: rev_induct)
  case Nil
  then show ?case by simp
next
  case (snoc x b)
  have e: "enumerate 0 (b @ [x]) = enumerate 0 b @ [(length b, x)]"
    by (simp add: enumerate_append_eq)
  show ?case
    using snoc by (auto simp: e setdefault_append_def positions_snoc positions_empty)
qed

lemma chain_b_Some: "chain_b b c = Some js \<Longrightarrow> js = positions b c \<and> c \<in> set b"
  by (auto simp: chain_b_def Let_def b2j_fold split: if_splits option.splits)

lemma chain_b_None: "chain_b b c = None \<Longrightarrow> c \<in> set b \<Longrightarrow>
    length b \<ge> 200 \<and> length (positions b c) > length b div 100 + 1"
  by (auto simp: chain_b_def Let_def b2j_fold split: if_splits option.splits)

subsection \<open>A sequence against itself\<close>

text \<open>
  When both sequences are the same list, the longest match found by the first loop of
  \<open>find_longest_match\<close> lies on the diagonal: a match off the diagonal is never strictly
  longer than a diagonal one met before it. The two extension loops then stretch it over
  the whole list, whether or not popular elements were dropped from \<open>b2j\<close>.
\<close>

text \<open>The length of the run of elements kept in \<open>b2j\<close> that ends just before position \<open>i\<close>.\<close>

fun runlen :: "'a list \<Rightarrow> nat \<Rightarrow> nat" where
  "runlen x 0 = 0"
| "runlen x (Suc i) = (if chain_b x (x ! i) \<noteq> None then runlen x i + 1 else 0)"

definition diag_j2len :: "'a list \<Rightarrow> nat \<Rightarrow> (nat \<rightharpoonup> nat) \<Rightarrow> bool" where
  "diag_j2len x i m =
     ((\<forall>j v. m j = Some v \<longrightarrow> v \<le> runlen x (Suc j) \<and> v \<le> runlen x i)
      \<and> j2lenget m i = runlen x i)"

definition diag_best :: "'a list \<Rightarrow> nat \<Rightarrow> match \<Rightarrow> bool" where
  "diag_best x i best = (case best of (bi, bj, bs) \<Rightarrow> bi = bj \<and> (\<forall>p\<le>i. runlen x p \<le> bs))"

lemma j2lenget_diag:
  assumes "diag_j2len x i m"
  shows "j2lenget m j \<le> runlen x j \<and> j2lenget m j \<le> runlen x i"
proof (cases "j = 0")
  case True
  then show ?thesis by (simp add: j2lenget_def)
next
  case False
  then obtain j' where j': "j = Suc j'" by (cases j) auto
  show ?thesis
  proof (cases "m j'")
    case None
    then show ?thesis using j' by (simp add: j2lenget_def)
  next
    case (Some v)
    then have "v \<le> runlen x (Suc j') \<and> v \<le> runlen x i"
      using assms unfolding diag_j2len_def by blast
    then show ?thesis using j' Some by (simp add: j2lenget_def del: runlen.simps)
  qed
qed

lemma flm_inner_diag:
  assumes m: "diag_j2len x i m"
    and pi: "chain_b x (x ! i) \<noteq> None"
    and js: "sorted js" "\<forall>j\<in>set js. j < n \<and> chain_b x (x ! j) \<noteq> None"
    and new: "\<forall>j v. new j = Some v \<longrightarrow> v \<le> runlen x (Suc j) \<and> v \<le> runlen x (Suc i)"
    and best: "diag_best x i best"
    and todo: "i \<in> set js \<or> (new i = Some (runlen x (Suc i)) \<and> runlen x (Suc i) \<le> snd (snd best))"
  shows "diag_j2len x (Suc i) (fst (flm_inner m i 0 n js (new, best)))
       \<and> diag_best x (Suc i) (snd (flm_inner m i 0 n js (new, best)))"
  using js new best todo
proof (induction js arbitrary: new best)
  case Nil
  obtain bi bj bs where b: "best = (bi, bj, bs)" by (cases best)
  have "j2lenget new (Suc i) = runlen x (Suc i)"
    using Nil.prems(5) by (simp add: j2lenget_def)
  moreover have "\<forall>p\<le>Suc i. runlen x p \<le> bs"
    using Nil.prems(4,5) b by (auto simp: diag_best_def le_Suc_eq simp del: runlen.simps)
  ultimately show ?case
    using Nil.prems(3,4) b by (simp add: diag_j2len_def diag_best_def del: runlen.simps)
next
  case (Cons j js)
  obtain bi bj bs where b: "best = (bi, bj, bs)" by (cases best)
  have jn: "j < n" and jp: "chain_b x (x ! j) \<noteq> None" using Cons.prems(2) by auto
  have ri: "runlen x (Suc i) = runlen x i + 1" using pi by simp
  have rj: "runlen x (Suc j) = runlen x j + 1" using jp by simp
  define k where "k = j2lenget m j + 1"
  define new' where "new' = new(j \<mapsto> k)"
  define best' where "best' = (if k > bs then (i + 1 - k, j + 1 - k, k) else (bi, bj, bs))"
  have step: "flm_inner m i 0 n (j # js) (new, best) = flm_inner m i 0 n js (new', best')"
    using jn b by (simp add: Let_def k_def new'_def best'_def)
  have kb: "k \<le> runlen x (Suc j)" "k \<le> runlen x (Suc i)"
    using j2lenget_diag[OF m, of j] ri rj by (auto simp: k_def)
  have bsd: "bi = bj" "\<forall>p\<le>i. runlen x p \<le> bs"
    using Cons.prems(4) b by (auto simp: diag_best_def)
  have upd: "j = i" if "k > bs"
  proof (rule ccontr)
    assume "j \<noteq> i"
    then consider "j < i" | "i < j" by arith
    then show False
    proof cases
      case 1
      then have "runlen x (Suc j) \<le> bs" using bsd(2) by (simp del: runlen.simps)
      then show False using kb(1) that by simp
    next
      case 2
      then have "i \<notin> set (j # js)" using Cons.prems(1) by auto
      then have "runlen x (Suc i) \<le> bs" using Cons.prems(5) b by (simp del: runlen.simps)
      then show False using kb(2) that by simp
    qed
  qed
  have 1: "sorted js" using Cons.prems(1) by simp
  have 2: "\<forall>j\<in>set js. j < n \<and> chain_b x (x ! j) \<noteq> None" using Cons.prems(2) by simp
  have 3: "\<forall>j v. new' j = Some v \<longrightarrow> v \<le> runlen x (Suc j) \<and> v \<le> runlen x (Suc i)"
    using Cons.prems(3) kb by (auto simp: new'_def simp del: runlen.simps)
  have 4: "diag_best x i best'"
    using bsd upd by (auto simp: best'_def diag_best_def simp del: runlen.simps)
  have bs': "bs \<le> snd (snd best')" "k \<le> snd (snd best')" by (auto simp: best'_def)
  have 5: "i \<in> set js \<or> (new' i = Some (runlen x (Suc i)) \<and> runlen x (Suc i) \<le> snd (snd best'))"
  proof (cases "j = i")
    case True
    have "j2lenget m i = runlen x i" using m by (simp add: diag_j2len_def)
    then have "k = runlen x (Suc i)" using True ri by (simp add: k_def)
    then show ?thesis using True bs'(2) by (simp add: new'_def del: runlen.simps)
  next
    case False
    show ?thesis
    proof (cases "i \<in> set js")
      case True
      then show ?thesis by simp
    next
      case notin: False
      then have "new i = Some (runlen x (Suc i)) \<and> runlen x (Suc i) \<le> bs"
        using Cons.prems(5) False b by (simp del: runlen.simps)
      then show ?thesis using False bs'(1) by (simp add: new'_def del: runlen.simps)
    qed
  qed
  show ?case unfolding step by (rule Cons.IH[OF 1 2 3 4 5])
qed

lemma sorted_positions: "sorted (positions b c)"
  unfolding positions_def by (rule sorted_wrt_filter) simp

lemma flm_row_diag:
  assumes "diag_j2len x i (fst st)" "diag_best x i (snd st)" "i < length x"
  shows "diag_j2len x (Suc i) (fst (flm_row x (chain_b x) 0 (length x) st i))
       \<and> diag_best x (Suc i) (snd (flm_row x (chain_b x) 0 (length x) st i))"
proof -
  obtain m best where st: "st = (m, best)" by (cases st)
  show ?thesis
  proof (cases "chain_b x (x ! i)")
    case None
    then have "flm_row x (chain_b x) 0 (length x) st i = (Map.empty, best)"
      by (simp add: flm_row_def st)
    moreover have "diag_j2len x (Suc i) Map.empty"
      using None by (simp add: diag_j2len_def j2lenget_def)
    moreover have "diag_best x (Suc i) best"
      using assms(2) None st by (auto simp: diag_best_def le_Suc_eq)
    ultimately show ?thesis by simp
  next
    case (Some js)
    then have js: "js = positions x (x ! i)" using chain_b_Some by fastforce
    have r: "flm_row x (chain_b x) 0 (length x) st i = flm_inner m i 0 (length x) js (Map.empty, best)"
      by (simp add: flm_row_def st Some)
    have a: "chain_b x (x ! i) \<noteq> None" using Some by simp
    have b: "sorted js" unfolding js by (rule sorted_positions)
    have c: "\<forall>j\<in>set js. j < length x \<and> chain_b x (x ! j) \<noteq> None"
      using js a by (auto simp: positions_def)
    have d: "\<forall>j v. Map.empty j = Some v \<longrightarrow> v \<le> runlen x (Suc j) \<and> v \<le> runlen x (Suc i)"
      by simp
    have e: "i \<in> set js \<or> (Map.empty i = Some (runlen x (Suc i)) \<and> runlen x (Suc i) \<le> snd (snd best))"
      using js assms(3) by (simp add: positions_def)
    show ?thesis
      unfolding r using flm_inner_diag[OF _ a b c d _ e] assms(1,2) st by simp
  qed
qed

lemma flm_rows_diag:
  assumes "n \<le> length x"
  shows "diag_j2len x n (fst (foldl (flm_row x (chain_b x) 0 (length x)) (Map.empty, (0, 0, 0)) [0..<n]))
       \<and> diag_best x n (snd (foldl (flm_row x (chain_b x) 0 (length x)) (Map.empty, (0, 0, 0)) [0..<n]))"
  using assms
proof (induction n)
  case 0
  then show ?case by (simp add: diag_j2len_def diag_best_def j2lenget_def)
next
  case (Suc n)
  then have IH: "diag_j2len x n (fst (foldl (flm_row x (chain_b x) 0 (length x)) (Map.empty, (0, 0, 0)) [0..<n]))"
      "diag_best x n (snd (foldl (flm_row x (chain_b x) 0 (length x)) (Map.empty, (0, 0, 0)) [0..<n]))"
      and lt: "n < length x"
    by auto
  show ?case using flm_row_diag[OF IH lt] by simp
qed

lemma extend_left_diag: "extend_left x x 0 0 (d, d, s) = (0, 0, s + d)"
proof (induction d arbitrary: s)
  case 0
  then show ?case by (subst extend_left.simps) simp
next
  case (Suc d)
  show ?case using Suc[of "s + 1"] by (subst extend_left.simps) simp
qed

lemma extend_right_diag: "s \<le> n \<Longrightarrow> extend_right x x n n (0, 0, s) = (0, 0, n)"
proof (induction "n - s" arbitrary: s)
  case 0
  then show ?case by (subst extend_right.simps) simp
next
  case (Suc d)
  then have "d = n - (s + 1)" "s + 1 \<le> n" "s < n" by auto
  then show ?case using Suc.hyps(1)[of "s + 1"] by (subst extend_right.simps) simp
qed

lemma find_longest_match_same: "find_longest_match x x 0 (length x) 0 (length x) = (0, 0, length x)"
proof -
  let ?r = "foldl (flm_row x (chain_b x) 0 (length x)) (Map.empty, (0, 0, 0)) [0..<length x]"
  obtain d e s where r: "snd ?r = (d, e, s)" by (cases "snd ?r")
  have "diag_best x (length x) (snd ?r)" using flm_rows_diag[of "length x" x] by simp
  then have de: "e = d" using r by (simp add: diag_best_def)
  have "best_ok 0 (length x) 0 (length x) (snd ?r)"
    using flm_rows_ok[of 0 "length x" "length x" 0 "length x" x "chain_b x"] by simp
  then have le: "s + d \<le> length x" using r by (simp add: best_ok_def)
  show ?thesis
    using r de le by (simp add: find_longest_match_def case_prod_beta extend_left_diag extend_right_diag)
qed

lemma queue_blocks_same: "queue_blocks x x 0 (length x) 0 (length x) = (if x = [] then [] else [(0, 0, length x)])"
  by (subst queue_blocks.simps) (simp add: find_longest_match_same)

subsection \<open>The total size of the matching blocks\<close>

definition blocks_size :: "match list \<Rightarrow> nat" where
  "blocks_size ms = sum_list (map (\<lambda>triple. snd (snd triple)) ms)"

lemma blocks_size_simps [simp]:
  "blocks_size [] = 0" "blocks_size ((i, j, k) # ms) = k + blocks_size ms"
  "blocks_size (ms @ ms') = blocks_size ms + blocks_size ms'"
  by (simp_all add: blocks_size_def)

lemma blocks_size_collapse: "blocks_size (collapse (i, j, k) ms) = k + blocks_size ms"
  by (induction ms arbitrary: i j k) auto

lemma blocks_size_insort: "blocks_size (insort m ms) = snd (snd m) + blocks_size ms"
  by (induction ms) (auto simp: blocks_size_def)

lemma blocks_size_sort: "blocks_size (sort ms) = blocks_size ms"
proof (induction ms)
  case Nil
  then show ?case by simp
next
  case (Cons m ms)
  then show ?case by (cases m) (simp add: blocks_size_insort)
qed

lemma blocks_size_queue_blocks:
  "alo \<le> ahi \<Longrightarrow> blo \<le> bhi \<Longrightarrow>
   blocks_size (queue_blocks a b alo ahi blo bhi) \<le> ahi - alo
   \<and> blocks_size (queue_blocks a b alo ahi blo bhi) \<le> bhi - blo"
proof (induction a b alo ahi blo bhi rule: queue_blocks.induct)
  case (1 a b alo ahi blo bhi)
  obtain i j k where f: "find_longest_match a b alo ahi blo bhi = (i, j, k)"
    by (cases "find_longest_match a b alo ahi blo bhi")
  show ?case
  proof (cases "k = 0")
    case True
    then show ?thesis using f by (subst (1 2) queue_blocks.simps) simp
  next
    case False
    then have bnd: "alo \<le> i" "i + k \<le> ahi" "blo \<le> j" "j + k \<le> bhi"
      using find_longest_match_bounds[OF f] by auto
    define R where "R = (if i + k < ahi \<and> j + k < bhi then queue_blocks a b (i + k) ahi (j + k) bhi else [])"
    define L where "L = (if alo < i \<and> blo < j then queue_blocks a b alo i blo j else [])"
    have q: "queue_blocks a b alo ahi blo bhi = (i, j, k) # R @ L"
      using f False by (subst queue_blocks.simps) (simp add: R_def L_def)
    have r: "blocks_size R \<le> ahi - (i + k) \<and> blocks_size R \<le> bhi - (j + k)"
    proof (cases "i + k < ahi \<and> j + k < bhi")
      case True
      then show ?thesis
        using "1.IH"(1)[OF f[symmetric] refl False] by (simp add: R_def)
    next
      case False
      then have "R = []" unfolding R_def by (simp only: if_False)
      then show ?thesis by simp
    qed
    have l: "blocks_size L \<le> i - alo \<and> blocks_size L \<le> j - blo"
    proof (cases "alo < i \<and> blo < j")
      case True
      then show ?thesis
        using "1.IH"(2)[OF f[symmetric] refl False] by (simp add: L_def)
    next
      case False
      then have "L = []" unfolding L_def by (simp only: if_False)
      then show ?thesis by simp
    qed
    show ?thesis unfolding q using r l bnd by (simp del: blocks_size_simps(3) add: blocks_size_simps(3)) arith
  qed
qed

lemma matches_get_matching_blocks:
  "blocks_size (get_matching_blocks a b) = blocks_size (queue_blocks a b 0 (length a) 0 (length b))"
  by (simp add: get_matching_blocks_def Let_def blocks_size_collapse blocks_size_sort)

lemma ratio_bounds: "0 \<le> ratio a b \<and> ratio a b \<le> 1"
proof -
  let ?m = "blocks_size (get_matching_blocks a b)"
  have "?m \<le> length a \<and> ?m \<le> length b"
    using blocks_size_queue_blocks[of 0 "length a" 0 "length b" a b]
    by (simp add: matches_get_matching_blocks)
  then have "2 * ?m \<le> length a + length b" by simp
  then have "(2 * of_nat ?m :: rat) \<le> of_nat (length a + length b)"
    by (metis of_nat_le_iff of_nat_mult of_nat_numeral)
  moreover have "(0::rat) \<le> of_nat (length a + length b)" by simp
  ultimately have q: "(2 * of_nat ?m :: rat) / of_nat (length a + length b) \<le> 1"
    by (cases "length a + length b = 0") (simp_all add: divide_le_eq_1 del: of_nat_add)
  have "(0::rat) \<le> 2 * of_nat ?m / of_nat (length a + length b)" by simp
  then have "0 \<le> to_double (2 * of_nat ?m / of_nat (length a + length b))
           \<and> to_double (2 * of_nat ?m / of_nat (length a + length b)) \<le> 1"
    using q by (rule to_double_unit)
  then have "0 \<le> calculate_ratio ?m (length a + length b)
           \<and> calculate_ratio ?m (length a + length b) \<le> 1"
    by (simp add: calculate_ratio_def)
  then show ?thesis
    by (simp add: ratio_def Let_def blocks_size_def)
qed

lemma ratio_same: "ratio x x = 1"
proof -
  have "blocks_size (get_matching_blocks x x) = length x"
    by (simp add: matches_get_matching_blocks queue_blocks_same)
  then show ?thesis
    by (simp add: ratio_def Let_def blocks_size_def[symmetric] calculate_ratio_def to_double_one)
qed

text \<open>
  C6 (symmetric, within \<open>[0,1]\<close>, and \<open>1\<close> on equal arguments), as stated: false. The
  score depends on the order of its arguments: \<open>"tide"\<close> against \<open>"diet"\<close> is \<open>1/4\<close>, and
  \<open>"diet"\<close> against \<open>"tide"\<close> is \<open>1/2\<close>.
\<close>

theorem similarity_not_symmetric_counterexample:
  "calculate_similarity ''tide'' ''diet'' \<noteq> calculate_similarity ''diet'' ''tide''"
  by code_simp

text \<open>
  C6, amended: the score always lies in \<open>[0,1]\<close>, and every string scores \<open>1\<close> against
  itself. Symmetry is not claimed.
\<close>

theorem similarity_bounded_reflexive:
  "0 \<le> calculate_similarity a b \<and> calculate_similarity a b \<le> 1 \<and> calculate_similarity x x = 1"
  by (simp add: calculate_similarity_def ratio_bounds ratio_same)

section \<open>The fuzzy-match step\<close>

text \<open>
  C5 (fuzzy-match step). On a table with at least one row and no entry whose normalized
  name equals the normalized candidate, the lookup scores every entry's normalized name
  against the normalized candidate and takes the first entry \<open>i\<close> of maximal similarity:
  no entry scores higher and every earlier entry scores strictly lower. It returns a
  fuzzy match with that entry's name and impact factor exactly when that similarity is
  at least the threshold (equality included), and none otherwise. The scores and the
  threshold are floats and are compared as such. The similarity reported is the score
  rounded to 3 decimal places: the float nearest to \<open>n/1000\<close> for an integer \<open>n\<close> that lies
  within one half of the thousandfold score, up to the rounding of that product to a
  float (at most \<open>2^-44\<close>).
\<close>

theorem fuzzy_match_step:
  fixes df :: "'f dataframe"
  assumes "rows df \<noteq> []"
    and "filter (\<lambda>r. journal_name_lower r = strip (lower name)) (rows df) = []"
  defines "sims \<equiv> map (\<lambda>r. calculate_similarity (journal_name_lower r) (strip (lower name))) (rows df)"
  shows "\<exists>i < length (rows df).
           (\<forall>j < length (rows df). sims ! j \<le> sims ! i) \<and> (\<forall>j < i. sims ! j < sims ! i)
         \<and> fst (get_impact_factor name df threshold) =
             Inr (if sims ! i \<ge> threshold
                  then Some \<lparr>info_journal_name = journal_name (rows df ! i),
                             info_impact_factor = impact_factor (rows df ! i),
                             info_match_type = Fuzzy,
                             info_similarity = Some (round_float64 (sims ! i) 3)\<rparr>
                  else None)
         \<and> (\<exists>n::int. round_float64 (sims ! i) 3 = to_double (of_int n / 1000)
                \<and> \<bar>of_int n - 1000 * sims ! i\<bar> \<le> 1 / 2 + 1 / 2 ^ 44)"
proof -
  have ne: "sims \<noteq> []" using assms(1) by (simp add: sims_def)
  obtain i where i: "idxmax sims = Inr i" "i < length sims" "\<forall>j<length sims. sims ! j \<le> sims ! i"
      "\<forall>j<i. sims ! j < sims ! i"
    using idxmax_first_max[OF ne] by blast
  note nofilter = assms(2)
  have len: "length sims = length (rows df)" by (simp add: sims_def)
  have res: "fst (get_impact_factor name df threshold) =
             Inr (if sims ! i \<ge> threshold
                  then Some \<lparr>info_journal_name = journal_name (rows df ! i),
                             info_impact_factor = impact_factor (rows df ! i),
                             info_match_type = Fuzzy,
                             info_similarity = Some (round_float64 (sims ! i) 3)\<rparr>
                  else None)"
    using nofilter i(1) unfolding get_impact_factor_def sims_def[symmetric] Let_def
    by (simp add: sims_def[symmetric])
  have "sims ! i = calculate_similarity (journal_name_lower (rows df ! i)) (strip (lower name))"
    using i(2) len by (simp add: sims_def)
  then have "0 \<le> sims ! i" "sims ! i \<le> 1"
    by (simp_all add: calculate_similarity_def ratio_bounds)
  then have "\<exists>n::int. round_float64 (sims ! i) 3 = to_double (of_int n / 1000)
                \<and> \<bar>of_int n - 1000 * sims ! i\<bar> \<le> 1 / 2 + 1 / 2 ^ 44"
    by (rule round_float64_3)
  then show ?thesis
    using i(2,3,4) len res by auto
qed

text \<open>\<open>"Natur"\<close> scores the float \<open>10/11\<close> against both \<open>"nature"\<close> entries: the first one
  is returned at a threshold equal to that score, with the similarity \<open>0.909\<close>, and
  nothing is returned at the threshold \<open>11/12\<close> above it.\<close>

theorem fuzzy_match_step_witness:
  "rows nature_table \<noteq> []
   \<and> filter (\<lambda>r. journal_name_lower r = strip (lower ''Natur'')) (rows nature_table) = []
   \<and> fst (get_impact_factor ''Natur'' nature_table (to_double (10 / 11))) =
       Inr (Some \<lparr>info_journal_name = ''Nature'', info_impact_factor = 139 / 2,
                  info_match_type = Fuzzy, info_similarity = Some (to_double (909 / 1000))\<rparr>)
   \<and> fst (get_impact_factor ''Natur'' nature_table (to_double (11 / 12))) = Inr None"
proof -
  have h1: "rows nature_table \<noteq> []" by code_simp
  have h2: "filter (\<lambda>r. journal_name_lower r = strip (lower ''Natur'')) (rows nature_table) = []"
    by code_simp
  have s: "map (\<lambda>r. calculate_similarity (journal_name_lower r) (strip (lower ''Natur'')))
             (rows nature_table) = [6928614811339225 / 18014398509481984, 8188362958855447 / 9007199254740992, 8188362958855447 / 9007199254740992]"
    by code_simp
  have r: "rows nature_table ! Suc 0
             = \<lparr>journal_name = ''Nature'', impact_factor = 139 / 2, journal_name_lower = ''nature''\<rparr>"
    "length (rows nature_table) = 3"
    by code_simp+
  have p: "round_float64 (8188362958855447 / 9007199254740992) 3 = to_double (909 / 1000)" by code_simp
  have t1: "to_double (10 / 11) = 8188362958855447 / 9007199254740992" by code_simp
  have t2: "to_double (11 / 12) = 8256599316845909 / 9007199254740992" by code_simp
  have pick: "i = 1" if "i < 3" "\<forall>j<3. [6928614811339225 / 18014398509481984, 8188362958855447 / 9007199254740992, 8188362958855447 / 9007199254740992 :: rat] ! j \<le> [6928614811339225 / 18014398509481984, 8188362958855447 / 9007199254740992, 8188362958855447 / 9007199254740992] ! i"
     "\<forall>j<i. [6928614811339225 / 18014398509481984, 8188362958855447 / 9007199254740992, 8188362958855447 / 9007199254740992 :: rat] ! j < [6928614811339225 / 18014398509481984, 8188362958855447 / 9007199254740992, 8188362958855447 / 9007199254740992] ! i" for i
  proof -
    have "i = 0 \<or> i = 1 \<or> i = 2" using that(1) by arith
    moreover have "i \<noteq> 0"
    proof
      assume "i = 0"
      then show False using that(2)[rule_format, of 1] by simp
    qed
    moreover have "i \<noteq> 2"
    proof
      assume "i = 2"
      then show False using that(3)[rule_format, of 1] by simp
    qed
    ultimately show ?thesis by blast
  qed
  have a: "fst (get_impact_factor ''Natur'' nature_table (to_double (10 / 11))) =
       Inr (Some \<lparr>info_journal_name = ''Nature'', info_impact_factor = 139 / 2,
                  info_match_type = Fuzzy, info_similarity = Some (to_double (909 / 1000))\<rparr>)"
  proof -
    obtain i where i: "i < 3"
      "\<forall>j<3. [6928614811339225 / 18014398509481984, 8188362958855447 / 9007199254740992, 8188362958855447 / 9007199254740992 :: rat] ! j \<le> [6928614811339225 / 18014398509481984, 8188362958855447 / 9007199254740992, 8188362958855447 / 9007199254740992] ! i"
      "\<forall>j<i. [6928614811339225 / 18014398509481984, 8188362958855447 / 9007199254740992, 8188362958855447 / 9007199254740992 :: rat] ! j < [6928614811339225 / 18014398509481984, 8188362958855447 / 9007199254740992, 8188362958855447 / 9007199254740992] ! i"
      "fst (get_impact_factor ''Natur'' nature_table (to_double (10 / 11))) =
         Inr (if [6928614811339225 / 18014398509481984, 8188362958855447 / 9007199254740992, 8188362958855447 / 9007199254740992] ! i \<ge> to_double (10 / 11)
              then Some \<lparr>info_journal_name = journal_name (rows nature_table ! i),
                         info_impact_factor = impact_factor (rows nature_table ! i),
                         info_match_type = Fuzzy,
                         info_similarity = Some (round_float64 ([6928614811339225 / 18014398509481984, 8188362958855447 / 9007199254740992, 8188362958855447 / 9007199254740992] ! i) 3)\<rparr>
              else None)"
      using fuzzy_match_step[OF h1 h2, of "to_double (10 / 11)"] unfolding s r(2) by blast
    have "i = 1" using pick[OF i(1,2,3)] .
    then show ?thesis using i(4) unfolding t1 by (simp add: r(1) p)
  qed
  have b: "fst (get_impact_factor ''Natur'' nature_table (to_double (11 / 12))) = Inr None"
  proof -
    obtain i where i: "i < 3"
      "\<forall>j<3. [6928614811339225 / 18014398509481984, 8188362958855447 / 9007199254740992, 8188362958855447 / 9007199254740992 :: rat] ! j \<le> [6928614811339225 / 18014398509481984, 8188362958855447 / 9007199254740992, 8188362958855447 / 9007199254740992] ! i"
      "\<forall>j<i. [6928614811339225 / 18014398509481984, 8188362958855447 / 9007199254740992, 8188362958855447 / 9007199254740992 :: rat] ! j < [6928614811339225 / 18014398509481984, 8188362958855447 / 9007199254740992, 8188362958855447 / 9007199254740992] ! i"
      "fst (get_impact_factor ''Natur'' nature_table (to_double (11 / 12))) =
         Inr (if [6928614811339225 / 18014398509481984, 8188362958855447 / 9007199254740992, 8188362958855447 / 9007199254740992] ! i \<ge> to_double (11 / 12)
              then Some \<lparr>info_journal_name = journal_name (rows nature_table ! i),
                         info_impact_factor = impact_factor (rows nature_table ! i),
                         info_match_type = Fuzzy,
                         info_similarity = Some (round_float64 ([6928614811339225 / 18014398509481984, 8188362958855447 / 9007199254740992, 8188362958855447 / 9007199254740992] ! i) 3)\<rparr>
              else None)"
      using fuzzy_match_step[OF h1 h2, of "to_double (11 / 12)"] unfolding s r(2) by blast
    have "i = 1" using pick[OF i(1,2,3)] .
    then show ?thesis using i(4) unfolding t2 by simp
  qed
  show ?thesis using h1 h2 a b by blast
qed

section \<open>Properties of the Journal Name Extractor\<close>

subsection \<open>Character classes and strip\<close>

lemma isalpha_isword: "isalpha c \<Longrightarrow> isword c"
  by (simp add: isword_def)

lemma isupper_ascii_not_isspace: "isupper_ascii c \<Longrightarrow> \<not> isspace c"
  by (auto simp: isupper_ascii_def isspace_def Let_def)

lemma dropWhile_keeps: "c \<in> set s \<Longrightarrow> \<not> P c \<Longrightarrow> c \<in> set (dropWhile P s)"
  by (induction s) auto

lemma strip_nonempty:
  assumes "c \<in> set s" "\<not> isspace c"
  shows "strip s \<noteq> []"
proof -
  have "c \<in> set (dropWhile isspace s)"
    using assms by (rule dropWhile_keeps)
  then have "c \<in> set (rev (dropWhile isspace s))" by simp
  then have "c \<in> set (dropWhile isspace (rev (dropWhile isspace s)))"
    using assms(2) by (rule dropWhile_keeps)
  then have "dropWhile isspace (rev (dropWhile isspace s)) \<noteq> []"
    by (metis empty_iff list.set(1))
  then show ?thesis unfolding strip_def rev_is_Nil_conv .
qed

lemma strip_hd_nonempty: "\<not> isspace c \<Longrightarrow> strip (c # w) \<noteq> []"
  by (rule strip_nonempty[of c]) auto

lemma rstrip_keeps_head:
  assumes "\<not> P x"
  shows "\<exists>ys. rev (dropWhile P (rev (x # xs))) = x # ys"
proof -
  have "\<exists>zs. dropWhile P (rev xs @ [x]) = zs @ [x]"
    using assms by (simp add: dropWhile_append)
  then obtain zs where "dropWhile P (rev (x # xs)) = zs @ [x]" by auto
  then have "rev (dropWhile P (rev (x # xs))) = x # rev zs" by simp
  then show ?thesis by blast
qed

lemma hd_strip:
  assumes "strip s \<noteq> []"
  shows "\<not> isspace (hd (strip s))"
proof (cases "dropWhile isspace s")
  case Nil
  then have "strip s = []" by (simp add: strip_def del: dropWhile_eq_Nil_conv)
  then show ?thesis using assms by simp
next
  case (Cons x xs)
  then have x: "\<not> isspace x" using hd_dropWhile[of isspace s] by (simp del: dropWhile_eq_Nil_conv)
  obtain ys where "rev (dropWhile isspace (rev (x # xs))) = x # ys"
    using rstrip_keeps_head[of isspace x xs] x by blast
  then have "strip s = x # ys" using Cons by (simp add: strip_def del: dropWhile_eq_Nil_conv)
  then show ?thesis using x by simp
qed

subsection \<open>The matcher reaches its continuation\<close>

definition extends :: "mstate \<Rightarrow> mstate \<Rightarrow> bool" where
  "extends st st' =
     (case st of (pre, rest, g) \<Rightarrow> case st' of (pre', rest', g') \<Rightarrow>
        \<exists>w. pre' = rev w @ pre \<and> rest = w @ rest')"

lemma extends_refl: "extends st st"
  by (auto simp: extends_def split: prod.splits)

lemma extends_trans: "extends a b \<Longrightarrow> extends b c \<Longrightarrow> extends a c"
  by (auto simp: extends_def split: prod.splits)

lemma extends_step: "extends (pre, c # cs, g) (c # pre, cs, g')"
  unfolding extends_def by (simp add: exI[of _ "[c]"])

definition grp :: "mstate \<Rightarrow> string option" where
  "grp st = snd (snd st)"

lemma reaches_here:
  "k st = Some res \<Longrightarrow> \<exists>st'. k st' = Some res \<and> extends st st' \<and> grp st' = grp st"
  by (intro exI[of _ st]) (simp add: extends_refl)

lemma reaches_step:
  assumes "k st' = Some res" "extends (c # pre, cs, g) st'" "grp st' = grp (c # pre, cs, g)"
  shows "\<exists>st'. k st' = Some res \<and> extends (pre, c # cs, g) st' \<and> grp st' = grp (pre, c # cs, g)"
  using assms extends_trans[OF extends_step[of pre c cs g g] assms(2)]
  by (intro exI[of _ st']) (simp add: grp_def)

lemma lit_match_reaches:
  "lit_match ic xs k st = Some res \<Longrightarrow> \<exists>st'. k st' = Some res \<and> extends st st' \<and> grp st' = grp st"
proof (induction ic xs k st rule: lit_match.induct)
  case (1 ic k st)
  then show ?case using reaches_here[of k st res] by simp
next
  case (2 ic x xs k pre g)
  then show ?case by simp
next
  case (3 ic x xs k pre c cs g)
  then have "lit_match ic xs k (c # pre, cs, g) = Some res" by (simp split: if_splits)
  then obtain st' where "k st' = Some res" "extends (c # pre, cs, g) st'" "grp st' = grp (c # pre, cs, g)"
    using 3 by (auto split: if_splits)
  then show ?case by (rule reaches_step)
qed

lemma star_greedy_reaches:
  "star_greedy P k st = Some res \<Longrightarrow> \<exists>st'. k st' = Some res \<and> extends st st' \<and> grp st' = grp st"
proof (induction P k st rule: star_greedy.induct)
  case (1 P k pre g)
  then show ?case using reaches_here[of k "(pre, [], g)" res] by simp
next
  case (2 P k pre c cs g)
  show ?case
  proof (cases "P c \<and> star_greedy P k (c # pre, cs, g) \<noteq> None")
    case True
    then have "star_greedy P k (c # pre, cs, g) = Some res" using 2(2) by auto
    then obtain st' where "k st' = Some res" "extends (c # pre, cs, g) st'" "grp st' = grp (c # pre, cs, g)"
      using 2(1) True by blast
    then show ?thesis by (rule reaches_step)
  next
    case False
    then have "k (pre, c # cs, g) = Some res" using 2(2) by (auto split: if_splits option.splits)
    then show ?thesis by (rule reaches_here)
  qed
qed

lemma star_lazy_reaches:
  "star_lazy P k st = Some res \<Longrightarrow> \<exists>st'. k st' = Some res \<and> extends st st' \<and> grp st' = grp st"
proof (induction P k st rule: star_lazy.induct)
  case (1 P k pre g)
  then show ?case using reaches_here[of k "(pre, [], g)" res] by simp
next
  case (2 P k pre c cs g)
  show ?case
  proof (cases "k (pre, c # cs, g)")
    case (Some r)
    then have "k (pre, c # cs, g) = Some res" using 2(2) by simp
    then show ?thesis by (rule reaches_here)
  next
    case None
    then have pc: "P c" and "star_lazy P k (c # pre, cs, g) = Some res"
      using 2(2) by (auto split: if_splits)
    then obtain st' where "k st' = Some res" "extends (c # pre, cs, g) st'" "grp st' = grp (c # pre, cs, g)"
      using 2(1) None by blast
    then show ?thesis by (rule reaches_step)
  qed
qed

fun nogroup :: "regex \<Rightarrow> bool" where
  "nogroup (Seq r1 r2) = (nogroup r1 \<and> nogroup r2)"
| "nogroup (Alt r1 r2) = (nogroup r1 \<and> nogroup r2)"
| "nogroup (Opt r) = nogroup r"
| "nogroup (Group r) = False"
| "nogroup r = True"

lemma matcher_reaches:
  "matcher ic r k st = Some res \<Longrightarrow>
   \<exists>st'. k st' = Some res \<and> extends st st' \<and> (nogroup r \<longrightarrow> grp st' = grp st)"
proof (induction r arbitrary: k st)
  case (Lit xs)
  then show ?case using lit_match_reaches[of ic xs k st res] by auto
next
  case (Cls P)
  obtain pre rest g where st: "st = (pre, rest, g)" by (cases st)
  with Cls obtain c cs where "rest = c # cs" "P c" "k (c # pre, cs, g) = Some res"
    by (auto split: list.splits if_splits)
  then show ?case
    unfolding st using extends_step[of pre c cs g g]
    by (intro exI[of _ "(c # pre, cs, g)"]) (simp add: grp_def)
next
  case (Seq r1 r2)
  then have "matcher ic r1 (matcher ic r2 k) st = Some res" by simp
  then obtain st1 where 1: "matcher ic r2 k st1 = Some res" "extends st st1" "nogroup r1 \<longrightarrow> grp st1 = grp st"
    using Seq.IH(1) by blast
  then obtain st2 where 2: "k st2 = Some res" "extends st1 st2" "nogroup r2 \<longrightarrow> grp st2 = grp st1"
    using Seq.IH(2) by blast
  show ?case using 1 2 extends_trans by (intro exI[of _ st2]) auto
next
  case (Alt r1 r2)
  show ?case
  proof (cases "matcher ic r1 k st")
    case None
    then have "matcher ic r2 k st = Some res" using Alt.prems by simp
    then show ?thesis using Alt.IH(2) by fastforce
  next
    case (Some r)
    then have "matcher ic r1 k st = Some res" using Alt.prems by simp
    then show ?thesis using Alt.IH(1) by fastforce
  qed
next
  case (Opt r)
  show ?case
  proof (cases "matcher ic r k st")
    case None
    then have "k st = Some res" using Opt.prems by simp
    then show ?thesis using reaches_here[of k st res] by blast
  next
    case (Some r')
    then have "matcher ic r k st = Some res" using Opt.prems by simp
    then show ?thesis using Opt.IH by fastforce
  qed
next
  case (Star P greedy)
  then show ?case
    using star_greedy_reaches[of P k st res] star_lazy_reaches[of P k st res]
    by (auto split: if_splits)
next
  case (Group r)
  obtain pre rest g where st: "st = (pre, rest, g)" by (cases st)
  let ?k = "\<lambda>(pre', rest', g'). k (pre', rest', Some (rev (take (length pre' - length pre) pre')))"
  have "matcher ic r ?k st = Some res" using Group.prems st by simp
  then obtain st' where s: "?k st' = Some res" "extends st st'" using Group.IH by blast
  obtain pre' rest' g' where st': "st' = (pre', rest', g')" by (cases st')
  have "extends st (pre', rest', Some (rev (take (length pre' - length pre) pre')))"
    using s(2) st' by (auto simp: extends_def split: prod.splits)
  then show ?case using s(1) st' by auto
next
  case Bol
  obtain pre rest g where st: "st = (pre, rest, g)" by (cases st)
  then have "k st = Some res" using Bol by (simp split: if_splits)
  then show ?case using reaches_here[of k st res] by blast
next
  case Eol
  obtain pre rest g where st: "st = (pre, rest, g)" by (cases st)
  then have "k st = Some res" using Eol by (simp split: if_splits)
  then show ?case using reaches_here[of k st res] by blast
next
  case WordB
  then have "k st = Some res" by (simp split: if_splits)
  then show ?case using reaches_here[of k st res] by blast
qed

lemma matcher_Some_grp:
  "nogroup r \<Longrightarrow> matcher ic r Some st = Some res \<Longrightarrow> grp res = grp st"
  using matcher_reaches[of ic r Some st res] by auto

text \<open>A group that begins with a character of a class captures a text that begins with
  such a character.\<close>

lemma matcher_Cls_Some:
  "matcher ic (Cls P) k (pre, rest, g) = Some res \<Longrightarrow>
   \<exists>c cs. rest = c # cs \<and> P c \<and> k (c # pre, cs, g) = Some res"
  by (cases rest) (simp_all split: if_splits)

lemma group_captures:
  assumes "matcher ic (Group (Seq (Cls P) r)) k (pre, rest, g) = Some res"
  shows "\<exists>c w st'. P c \<and> rest = c # w @ fst (snd st') \<and> grp st' = Some (c # w) \<and> k st' = Some res"
proof -
  define k' where "k' = (\<lambda>(pre', rest', g' :: string option).
     k (pre', rest', Some (rev (take (length pre' - length pre) pre'))))"
  have "matcher ic (Cls P) (matcher ic r k') (pre, rest, g) = Some res"
    using assms unfolding k'_def by (simp only: matcher.simps)
  then have "\<exists>c cs. rest = c # cs \<and> P c \<and> matcher ic r k' (c # pre, cs, g) = Some res"
    by (rule matcher_Cls_Some)
  then obtain c cs where c: "rest = c # cs" "P c" "matcher ic r k' (c # pre, cs, g) = Some res"
    by (elim exE conjE)
  have "\<exists>st'. k' st' = Some res \<and> extends (c # pre, cs, g) st'
          \<and> (nogroup r \<longrightarrow> grp st' = grp (c # pre, cs, g))"
    using c(3) by (rule matcher_reaches)
  then obtain st' where s: "k' st' = Some res" "extends (c # pre, cs, g) st'"
    by (elim exE conjE)
  obtain pre' rest' g' where st': "st' = (pre', rest', g')" by (cases st')
  obtain w where w: "pre' = rev w @ c # pre" "cs = w @ rest'"
    using s(2) unfolding st' extends_def by auto
  have "rev (take (length pre' - length pre) pre') = c # w"
    unfolding w(1) by simp
  then have "k (pre', rest', Some (c # w)) = Some res"
    using s(1) unfolding st' k'_def by simp
  moreover have "rest = c # w @ fst (snd (pre', rest', Some (c # w)))" using c(1) w(2) by simp
  moreover have "grp (pre', rest', Some (c # w)) = Some (c # w)" by (simp add: grp_def)
  ultimately show ?thesis using c(2) by blast
qed

lemma re_search_from_Some:
  "re_search_from ic r pre rest = Some (start, res) \<Longrightarrow>
   \<exists>rest'. matcher ic r Some (start, rest', None) = Some res \<and> rev start @ rest' = rev pre @ rest"
proof (induction rest arbitrary: pre)
  case Nil
  then show ?case by (auto split: option.splits)
next
  case (Cons c cs)
  show ?case
  proof (cases "matcher ic r Some (pre, c # cs, None)")
    case None
    then have "re_search_from ic r (c # pre) cs = Some (start, res)" using Cons.prems by simp
    then show ?thesis using Cons.IH by fastforce
  next
    case (Some st)
    then show ?thesis using Cons.prems by auto
  qed
qed

subsection \<open>Removing the leading symbols\<close>

lemma star_greedy_Some:
  "star_greedy P Some (pre, rest, g) = Some (rev (takeWhile P rest) @ pre, dropWhile P rest, g)"
  by (induction rest arbitrary: pre) auto

lemma prefix_symbols_at_start:
  "matcher False prefix_symbols_re Some ([], rest, None) =
     (case rest of [] \<Rightarrow> None
      | c # cs \<Rightarrow> if not_word_not_space c
                then Some (rev (takeWhile not_word_not_space cs) @ [c],
                           dropWhile not_word_not_space cs, None)
                else None)"
  by (cases rest) (simp_all add: prefix_symbols_re_def Plus_def star_greedy_Some)

lemma prefix_symbols_later:
  "pre \<noteq> [] \<Longrightarrow> matcher False prefix_symbols_re Some (pre, rest, None) = None"
  by (simp add: prefix_symbols_re_def)

lemma re_sub_prefix_later:
  "pre \<noteq> [] \<Longrightarrow> re_sub_empty_from False prefix_symbols_re pre rest = rest"
proof (induction rest arbitrary: pre)
  case Nil
  then show ?case
    by (subst re_sub_empty_from.simps) (simp add: prefix_symbols_later)
next
  case (Cons c cs)
  have "re_sub_empty_from False prefix_symbols_re (c # pre) cs = cs"
    by (rule Cons.IH) simp
  then show ?case
    using Cons.prems by (subst re_sub_empty_from.simps) (simp add: prefix_symbols_later)
qed

lemma re_sub_prefix_symbols:
  "re_sub_empty False prefix_symbols_re s = dropWhile not_word_not_space s"
proof (cases s)
  case Nil
  then show ?thesis
    unfolding re_sub_empty_def
    by (subst re_sub_empty_from.simps) (simp add: prefix_symbols_at_start)
next
  case (Cons c cs)
  show ?thesis
  proof (cases "not_word_not_space c")
    case True
    have "length (dropWhile not_word_not_space cs) < length (c # cs)"
      using length_dropWhile_le[of not_word_not_space cs] by simp
    then show ?thesis
      unfolding re_sub_empty_def Cons using True
      by (subst re_sub_empty_from.simps)
         (simp add: prefix_symbols_at_start re_sub_prefix_later)
  next
    case False
    then show ?thesis
      unfolding re_sub_empty_def Cons
      by (subst re_sub_empty_from.simps)
         (simp add: prefix_symbols_at_start re_sub_prefix_later)
  qed
qed

subsection \<open>What the groups capture\<close>

lemma seq_reaches:
  assumes "matcher ic (Seq r1 r2) k st = Some res"
  shows "\<exists>st1. matcher ic r2 k st1 = Some res \<and> extends st st1"
proof -
  have "matcher ic r1 (matcher ic r2 k) st = Some res" using assms by simp
  then have "\<exists>st'. matcher ic r2 k st' = Some res \<and> extends st st'
                \<and> (nogroup r1 \<longrightarrow> grp st' = grp st)"
    by (rule matcher_reaches)
  then show ?thesis by blast
qed

lemma group_then_nogroup:
  assumes "matcher ic (Seq (Group (Seq (Cls P) r)) t) Some (pre, rest, g) = Some res" "nogroup t"
  shows "\<exists>c w u. P c \<and> rest = c # w @ u \<and> grp res = Some (c # w)"
proof -
  have "matcher ic (Group (Seq (Cls P) r)) (matcher ic t Some) (pre, rest, g) = Some res"
    using assms(1) by (simp only: matcher.simps)
  then have "\<exists>c w st'. P c \<and> rest = c # w @ fst (snd st') \<and> grp st' = Some (c # w)
                \<and> matcher ic t Some st' = Some res"
    by (rule group_captures)
  then obtain c w st' where c: "P c" "rest = c # w @ fst (snd st')" "grp st' = Some (c # w)"
      "matcher ic t Some st' = Some res"
    by (elim exE conjE)
  have "grp res = grp st'" using assms(2) c(4) by (rule matcher_Some_grp)
  then show ?thesis using c by auto
qed

lemma final_group:
  assumes "matcher ic (Group (Seq (Cls P) r)) Some (pre, rest, g) = Some res"
  shows "\<exists>c w u. P c \<and> rest = c # w @ u \<and> grp res = Some (c # w)"
proof -
  have "\<exists>c w st'. P c \<and> rest = c # w @ fst (snd st') \<and> grp st' = Some (c # w)
                \<and> Some st' = Some res"
    using assms by (rule group_captures)
  then show ?thesis by auto
qed

definition captures_upper :: "mstate \<Rightarrow> bool" where
  "captures_upper res = (\<exists>c w. isupper_ascii c \<and> grp res = Some (c # w))"

lemma published_in_captures:
  assumes "matcher False published_in_re Some st = Some res"
  shows "captures_upper res"
proof -
  let ?t = "Alt (Lit [newline]) (Alt (Lit '','') (Alt (Lit ''Vol'') (Times isdecimal 4)))"
  let ?g = "Seq (Group (name_re False)) ?t"
  have "\<exists>st1. matcher False (Seq (Opt (Lit '':'')) (Seq (Star isspace True) ?g)) Some st1 = Some res
          \<and> extends st st1"
    using assms unfolding published_in_re_def by (rule seq_reaches)
  then obtain st1 where "matcher False (Seq (Opt (Lit '':'')) (Seq (Star isspace True) ?g)) Some st1 = Some res"
    by (elim exE conjE)
  then have "\<exists>st2. matcher False (Seq (Star isspace True) ?g) Some st2 = Some res \<and> extends st1 st2"
    by (rule seq_reaches)
  then obtain st2 where "matcher False (Seq (Star isspace True) ?g) Some st2 = Some res"
    by (elim exE conjE)
  then have "\<exists>st3. matcher False ?g Some st3 = Some res \<and> extends st2 st3"
    by (rule seq_reaches)
  then obtain st3 where 3: "matcher False ?g Some st3 = Some res"
    by (elim exE conjE)
  obtain pre rest g where st3: "st3 = (pre, rest, g)" by (cases st3)
  have "nogroup ?t" by (simp add: numeral_eq_Suc)
  then show ?thesis
    using group_then_nogroup[OF 3[unfolded st3 name_re_def]] unfolding captures_upper_def by blast
qed

lemma vol_captures:
  assumes "matcher False vol_re Some st = Some res"
  shows "captures_upper res"
proof -
  obtain pre rest g where st: "st = (pre, rest, g)" by (cases st)
  have "nogroup (Seq (Plus isspace True) (Seq (Lit ''Vol.'')
       (Seq (Star isspace True) (Plus isdecimal True))))"
    by (simp add: Plus_def)
  then show ?thesis
    using group_then_nogroup[OF assms[unfolded st vol_re_def name_re_def]]
    unfolding captures_upper_def by blast
qed

lemma journal_captures:
  assumes "matcher False journal_re Some st = Some res"
  shows "captures_upper res"
proof -
  let ?g = "Group (name_re True)"
  have "\<exists>st1. matcher False (Seq (Star isspace True) ?g) Some st1 = Some res \<and> extends st st1"
    using assms unfolding journal_re_def by (rule seq_reaches)
  then obtain st1 where "matcher False (Seq (Star isspace True) ?g) Some st1 = Some res"
    by (elim exE conjE)
  then have "\<exists>st2. matcher False ?g Some st2 = Some res \<and> extends st1 st2"
    by (rule seq_reaches)
  then obtain st2 where 2: "matcher False ?g Some st2 = Some res"
    by (elim exE conjE)
  obtain pre rest g where st2: "st2 = (pre, rest, g)" by (cases st2)
  show ?thesis
    using final_group[OF 2[unfolded st2 name_re_def]] unfolding captures_upper_def by blast
qed

lemma group_WordB:
  assumes "matcher ic (Seq (Group (Seq WordB r)) t) k (pre, rest, g) = Some res"
  shows "matcher ic (Seq (Group r) t) k (pre, rest, g) = Some res"
  using assms by (simp split: if_splits)

lemma copyright_captures:
  assumes "matcher False copyright_re Some st = Some res"
  shows "captures_upper res"
proof -
  let ?t = "Seq (Plus isspace True) (Times isdecimal 4)"
  let ?g = "Seq (Group (Seq WordB (name_re False))) ?t"
  have "\<exists>st1. matcher False (Seq (Star any_char False) ?g) Some st1 = Some res \<and> extends st st1"
    using assms unfolding copyright_re_def by (rule seq_reaches)
  then obtain st1 where "matcher False (Seq (Star any_char False) ?g) Some st1 = Some res"
    by (elim exE conjE)
  then have "\<exists>st2. matcher False ?g Some st2 = Some res \<and> extends st1 st2"
    by (rule seq_reaches)
  then obtain st2 where 2: "matcher False ?g Some st2 = Some res"
    by (elim exE conjE)
  obtain pre rest g where st2: "st2 = (pre, rest, g)" by (cases st2)
  have 3: "matcher False (Seq (Group (name_re False)) ?t) Some (pre, rest, g) = Some res"
    using 2 unfolding st2 by (rule group_WordB)
  have "nogroup ?t" by (simp add: Plus_def numeral_eq_Suc)
  then show ?thesis
    using group_then_nogroup[OF 3[unfolded name_re_def]] unfolding captures_upper_def by blast
qed

lemma patterns_capture:
  assumes "p \<in> set patterns" "re_search False p text = Some m"
  shows "\<exists>c w. isupper_ascii c \<and> group1_strip m = Inr (strip (c # w))"
proof -
  obtain start res where m: "m = (start, res)" by (cases m)
  then obtain rest' where "matcher False p Some (start, rest', None) = Some res"
    using assms(2) re_search_from_Some unfolding re_search_def by blast
  moreover have "p = published_in_re \<or> p = vol_re \<or> p = journal_re \<or> p = copyright_re"
    using assms(1) by (simp add: patterns_def)
  ultimately have "captures_upper res"
    using published_in_captures vol_captures journal_captures copyright_captures by blast
  then obtain c w where "isupper_ascii c" "grp res = Some (c # w)"
    unfolding captures_upper_def by blast
  then show ?thesis
    unfolding m by (cases res) (auto simp: group1_strip_def grp_def)
qed

lemma year_captures:
  assumes "re_search False year_re s = Some m"
  shows "\<exists>c w u. s = c # w @ u \<and> group1_strip m = Inr (strip (c # w))"
proof -
  let ?t = "Seq (Plus isspace True) (Seq (Alt (Lit ''19'') (Lit ''20'')) (Times isdecimal 2))"
  obtain start res where m: "m = (start, res)" by (cases m)
  then obtain rest' where r: "matcher False year_re Some (start, rest', None) = Some res"
      "rev start @ rest' = s"
    using assms re_search_from_Some[of False year_re "[]" s start res] unfolding re_search_def by auto
  have start: "start = []"
    using r(1) unfolding year_re_def by (simp split: if_splits)
  then have s: "rest' = s" using r(2) by simp
  have "matcher False (Seq (Group (Seq (Cls any_char) (Star any_char False))) ?t) Some ([], s, None) = Some res"
    using r(1) unfolding year_re_def start s Plus_def by simp
  moreover have "nogroup ?t" by (simp add: Plus_def numeral_eq_Suc)
  ultimately obtain c w u where "s = c # w @ u" "grp res = Some (c # w)"
    using group_then_nogroup by blast
  then show ?thesis
    unfolding m by (cases res) (auto simp: group1_strip_def grp_def)
qed

subsection \<open>The rules of the subject field\<close>

lemma in_set_strip: "\<not> isspace c \<Longrightarrow> c \<in> set (strip s) \<longleftrightarrow> c \<in> set s"
proof
  assume "c \<in> set (strip s)"
  then have "c \<in> set (dropWhile isspace (rev (dropWhile isspace s)))" by (simp add: strip_def)
  then have "c \<in> set (rev (dropWhile isspace s))" by (rule set_dropWhileD)
  then have "c \<in> set (dropWhile isspace s)" by simp
  then show "c \<in> set s" by (rule set_dropWhileD)
next
  assume a: "\<not> isspace c" "c \<in> set s"
  then have "c \<in> set (dropWhile isspace s)" by (simp add: dropWhile_keeps)
  then have "c \<in> set (rev (dropWhile isspace s))" by simp
  then have "c \<in> set (dropWhile isspace (rev (dropWhile isspace s)))"
    using a(1) by (simp add: dropWhile_keeps)
  then show "c \<in> set (strip s)" by (simp add: strip_def)
qed

lemma comma_not_isspace: "\<not> isspace CHR '',''"
  by (simp add: isspace_def)

lemma comma_rule_eq:
  "comma_rule s =
     (if CHR '','' \<in> set s \<and> (\<exists>c \<in> set (strip (takeWhile (\<lambda>c. c \<noteq> CHR '','') s)). isalpha c)
      then Some (dropWhile not_word_not_space (strip (takeWhile (\<lambda>c. c \<noteq> CHR '','') s)))
      else None)"
  by (auto simp: comma_rule_def Let_def re_sub_prefix_symbols)

lemma comma_rule_nonempty: "comma_rule s = Some name \<Longrightarrow> name \<noteq> []"
proof -
  assume a: "comma_rule s = Some name"
  let ?f = "strip (takeWhile (\<lambda>c. c \<noteq> CHR '','') s)"
  from a obtain c where c: "c \<in> set ?f" "isalpha c" and n: "name = dropWhile not_word_not_space ?f"
    unfolding comma_rule_eq by (auto split: if_splits)
  have "\<not> not_word_not_space c" using c(2) by (simp add: not_word_not_space_def isalpha_isword)
  then have "c \<in> set (dropWhile not_word_not_space ?f)" using c(1) by (simp add: dropWhile_keeps)
  then have "dropWhile not_word_not_space ?f \<noteq> []" by (metis empty_iff list.set(1))
  then show ?thesis unfolding n .
qed

lemma doi_rule_nonempty: "doi_rule s = Some name \<Longrightarrow> name \<noteq> []"
  by (auto simp: doi_rule_def Let_def split: if_splits)

lemma trailing_rule_nonempty: "trailing_rule s = Some name \<Longrightarrow> name \<noteq> []"
  by (auto simp: trailing_rule_def Let_def split: if_splits)

lemma year_rule_not_raised: "year_rule s \<noteq> Inl e"
proof (cases "re_search False year_re s")
  case None
  then show ?thesis by (simp add: year_rule_def)
next
  case (Some m)
  then obtain v where "group1_strip m = Inr v" using year_captures by blast
  then show ?thesis using Some by (simp add: year_rule_def)
qed

lemma year_rule_nonempty:
  assumes "year_rule (strip s0) = Inr (Some name)"
  shows "name \<noteq> []"
proof -
  obtain m where m: "re_search False year_re (strip s0) = Some m"
    using assms by (auto simp: year_rule_def split: option.splits)
  then obtain c w u where c: "strip s0 = c # w @ u" "group1_strip m = Inr (strip (c # w))"
    using year_captures by blast
  have "\<not> isspace (hd (strip s0))" by (rule hd_strip) (simp add: c(1))
  then have "\<not> isspace c" using c(1) by simp
  then have "strip (c # w) \<noteq> []" by (rule strip_hd_nonempty)
  moreover have "name = strip (c # w)" using assms m c(2) by (simp add: year_rule_def)
  ultimately show ?thesis by simp
qed

lemma rules_after_comma_not_raised: "rules_after_comma s \<noteq> Inl e"
  using year_rule_not_raised[of s]
  by (auto simp: rules_after_comma_def split: option.splits sum.splits)

lemma rules_after_comma_nonempty:
  assumes "rules_after_comma (strip s0) = Inr (Some name)"
  shows "name \<noteq> []"
  using assms doi_rule_nonempty[of "strip s0" name] year_rule_nonempty[of s0 name]
    trailing_rule_nonempty[of "strip s0" name]
  by (auto simp: rules_after_comma_def split: option.splits sum.splits)

lemma extract_journal_from_subject_not_raised: "extract_journal_from_subject subject \<noteq> Inl e"
  using rules_after_comma_not_raised
  by (auto simp: extract_journal_from_subject_def Let_def split: option.splits)

lemma extract_journal_from_subject_nonempty:
  assumes "extract_journal_from_subject subject = Inr (Some name)"
  shows "name \<noteq> []"
  using assms comma_rule_nonempty[of "strip subject" name] rules_after_comma_nonempty[of subject name]
  by (auto simp: extract_journal_from_subject_def Let_def split: option.splits if_splits)

subsection \<open>The text patterns\<close>

lemma search_patterns_result:
  assumes "set ps \<subseteq> set patterns"
  shows "search_patterns ps text \<noteq> Inl e
       \<and> (search_patterns ps text = Inr (Some name) \<longrightarrow> name \<noteq> [])"
  using assms
proof (induction ps)
  case Nil
  then show ?case by simp
next
  case (Cons p ps)
  show ?case
  proof (cases "re_search False p text")
    case None
    then show ?thesis using Cons by simp
  next
    case (Some m)
    have "p \<in> set patterns" using Cons.prems by simp
    then obtain c w where c: "isupper_ascii c" "group1_strip m = Inr (strip (c # w))"
      using patterns_capture Some by blast
    have "strip (c # w) \<noteq> []"
      using c(1) by (intro strip_hd_nonempty isupper_ascii_not_isspace)
    then show ?thesis using Some c(2) by auto
  qed
qed

lemma extract_journal_name_not_raised: "extract_journal_name text metadata \<noteq> Inl e"
  using search_patterns_result[of patterns "take 2000 text" e] extract_journal_from_subject_not_raised
  by (auto simp: extract_journal_name_def split: option.splits sum.splits if_splits)

text \<open>
  C10 (the extractor never produces an empty name). Whenever \<open>extract_journal_name\<close>
  returns a name, the name is not empty, and so is every name that
  \<open>extract_journal_from_subject\<close> returns. (Neither function raises: see
  \<open>extract_journal_name_not_raised\<close> and \<open>extract_journal_from_subject_not_raised\<close>.)
\<close>

theorem extractor_never_empty:
  "(extract_journal_name text metadata = Inr (Some name) \<longrightarrow> name \<noteq> [])
   \<and> (extract_journal_from_subject subject = Inr (Some name') \<longrightarrow> name' \<noteq> [])"
proof -
  have "name \<noteq> []" if "extract_journal_name text metadata = Inr (Some name)"
    using that search_patterns_result[of patterns "take 2000 text" _ name]
    by (auto simp: extract_journal_name_def split: option.splits sum.splits if_splits)
  then show ?thesis using extract_journal_from_subject_nonempty by blast
qed

theorem extractor_never_empty_witness:
  "extract_journal_name ''Journal: Nature Reviews 12'' Map.empty = Inr (Some ''Nature Reviews'')
   \<and> ''Nature Reviews'' \<noteq> []
   \<and> extract_journal_from_subject ''Cell 2023'' = Inr (Some ''Cell'')
   \<and> ''Cell'' \<noteq> []"
proof -
  have a: "extract_journal_name ''Journal: Nature Reviews 12'' Map.empty = Inr (Some ''Nature Reviews'')"
    by code_simp
  have b: "extract_journal_from_subject ''Cell 2023'' = Inr (Some ''Cell'')"
    by code_simp
  show ?thesis
    using a b extractor_never_empty[of "''Journal: Nature Reviews 12''" Map.empty "''Nature Reviews''"
        "''Cell 2023''" "''Cell''"]
    by blast
qed

text \<open>
  When the subject has a comma and the text before its first comma has a letter, the
  comma rule decides the result.
\<close>

lemma comma_rule_decides:
  assumes "subject \<noteq> []" "CHR '','' \<in> set subject"
    and "\<exists>c \<in> set (strip (takeWhile (\<lambda>c. c \<noteq> CHR '','') (strip subject))). isalpha c"
  shows "extract_journal_from_subject subject =
           Inr (Some (dropWhile not_word_not_space
                        (strip (takeWhile (\<lambda>c. c \<noteq> CHR '','') (strip subject)))))"
proof -
  have "CHR '','' \<in> set (strip subject)"
    using assms(2) in_set_strip[OF comma_not_isspace] by blast
  then have "comma_rule (strip subject) = Some (dropWhile not_word_not_space
                        (strip (takeWhile (\<lambda>c. c \<noteq> CHR '','') (strip subject))))"
    using assms(3) unfolding comma_rule_eq by simp
  then show ?thesis using assms(1) by (simp add: extract_journal_from_subject_def Let_def)
qed

text \<open>
  C7 (only the first matching sub-rule fires: for a subject with a comma, the comma rule
  alone decides, so a text before the first comma that has no letter gives none, and the
  doi, year and trailing-strip rules are not consulted). The code does not do this. The
  check for a letter refuses the text before the comma, but nothing returns there and
  the later rules run on the whole subject. In \<open>"2023, Nature doi:10.1038/x"\<close> the text
  before the first comma is \<open>"2023"\<close>, without a letter: the comma rule yields nothing,
  the doi rule is consulted and returns \<open>"2023, Nature"\<close>. In \<open>"2023, 2024"\<close> the year rule
  is consulted and returns \<open>"2023,"\<close>.
\<close>

theorem comma_rule_falls_through:
  "CHR '','' \<in> set ''2023, Nature doi:10.1038/x''
   \<and> filter isalpha ''2023'' = []
   \<and> comma_rule ''2023, Nature doi:10.1038/x'' = None
   \<and> doi_rule ''2023, Nature doi:10.1038/x'' = Some ''2023, Nature''
   \<and> extract_journal_from_subject ''2023, Nature doi:10.1038/x'' = Inr (Some ''2023, Nature'')
   \<and> CHR '','' \<in> set ''2023, 2024''
   \<and> comma_rule ''2023, 2024'' = None
   \<and> year_rule ''2023, 2024'' = Inr (Some ''2023,'')
   \<and> extract_journal_from_subject ''2023, 2024'' = Inr (Some ''2023,'')"
  by code_simp

section \<open>Properties of document processing\<close>

definition blank_pdf :: pdf where
  "blank_pdf = \<lparr>pdf_path = ''papers/d.pdf'', pdf_name = ''d.pdf'',
                 extract_text_from_pdf = Inr ''no journal here'', read_metadata = Inr Map.empty\<rparr>"

definition half_read_pdf :: pdf where
  "half_read_pdf = \<lparr>pdf_path = ''papers/c.pdf'', pdf_name = ''c.pdf'',
                     extract_text_from_pdf = Inr ''abc'', read_metadata = Inl ''boom''\<rparr>"

definition unreadable_pdf :: pdf where
  "unreadable_pdf = \<lparr>pdf_path = ''papers/a.pdf'', pdf_name = ''a.pdf'',
                     extract_text_from_pdf = Inl ''EOF marker not found'', read_metadata = Inr Map.empty\<rparr>"

definition nature_pdf :: pdf where
  "nature_pdf = \<lparr>pdf_path = ''papers/b.pdf'', pdf_name = ''b.pdf'',
                  extract_text_from_pdf = Inr ''some text'',
                  read_metadata = Inr [''/Subject'' \<mapsto> ''Nature, 2023'']\<rparr>"

definition science_pdf :: pdf where
  "science_pdf = \<lparr>pdf_path = ''papers/e.pdf'', pdf_name = ''e.pdf'',
                   extract_text_from_pdf = Inr ''some text'',
                   read_metadata = Inr [''/Subject'' \<mapsto> ''Science, 2023'']\<rparr>"

text \<open>
  The status \<open>'not_found'\<close> is produced at one place of \<open>process_pdf\<close>: after a name was
  extracted and the lookup returned none.
\<close>

lemma extract_journal_name_nonempty:
  "extract_journal_name text metadata = Inr (Some name) \<Longrightarrow> name \<noteq> []"
  using search_patterns_result[of patterns "take 2000 text" _ name]
  by (auto simp: extract_journal_name_def split: option.splits sum.splits if_splits)

lemma process_pdf_with_not_found:
  assumes "fst (process_pdf_with file df) = Inr r" "status r = Not_found"
  shows "\<exists>text metadata name.
           extract_text_from_pdf file = Inr text \<and> extract_metadata file = Inr metadata
           \<and> extract_journal_name text metadata = Inr (Some name)
           \<and> fst (get_impact_factor name df default_threshold) = Inr None
           \<and> r = not_found_outcome name"
  using assms
  by (auto simp: process_pdf_with_def error_outcome_def success_outcome_def
           split: sum.splits option.splits if_splits prod.splits)

lemma process_pdf_with_lookup_none:
  assumes "extract_text_from_pdf file = Inr text" "extract_metadata file = Inr metadata"
    and "extract_journal_name text metadata = Inr (Some name)"
    and "fst (get_impact_factor name df default_threshold) = Inr None"
  shows "fst (process_pdf_with file df) = Inr (not_found_outcome name)"
proof -
  have "name \<noteq> []" using assms(3) by (rule extract_journal_name_nonempty)
  then show ?thesis
    using assms by (auto simp: process_pdf_with_def split: prod.splits sum.splits option.splits)
qed

lemma fst_process_pdf:
  "fst (process_pdf database file journal_df) =
     (case journal_df of
        Some df \<Rightarrow> fst (process_pdf_with file df)
      | None \<Rightarrow> (case database of
                   Inl e \<Rightarrow> Inr (error_outcome (Load_failed e) None)
                 | Inr df \<Rightarrow> fst (process_pdf_with file df)))"
  by (simp add: process_pdf_def split: option.splits sum.splits prod.splits)

text \<open>
  C1 (no name means \<open>NotFound\<close>), as stated: false. A document that is read without
  error and in which no journal name is found gets the status \<open>'error'\<close>.
\<close>

theorem no_name_outcome_counterexample:
  "extract_text_from_pdf blank_pdf = Inr ''no journal here''
   \<and> extract_metadata blank_pdf = Inr Map.empty
   \<and> extract_journal_name ''no journal here'' Map.empty = Inr None
   \<and> fst (process_pdf (Inr nature_table) blank_pdf (Some nature_table)) =
       Inr \<lparr>status = Error, message = Some Journal_not_recognised,
            extracted_text_preview = Some ''no journal here'',
            extracted_journal_name = None, matched_journal_name = None,
            result_impact_factor = None, result_match_type = None, result_similarity = None,
            file_path = None, file_name = None\<rparr>"
proof -
  have a: "extract_text_from_pdf blank_pdf = Inr ''no journal here''" by code_simp
  have b: "extract_metadata blank_pdf = Inr Map.empty"
    by (simp add: extract_metadata_def blank_pdf_def)
  have c: "extract_journal_name ''no journal here'' Map.empty = Inr None" by code_simp
  show ?thesis
    using a b c by (simp add: process_pdf_def process_pdf_with_def error_outcome_def)
qed

text \<open>
  C1, amended. When the document is read and the extractor yields no name, the outcome
  has the status \<open>'error'\<close>, the message that no journal name was recognised, and the
  first 500 characters of the text as preview; the table is not touched. This holds with
  a table passed in and with a table loaded by the call. The status \<open>'not_found'\<close> is
  the status only when a name was extracted and the lookup found no match: an outcome
  with that status comes from a document that was read, a name extracted from it and a
  lookup of that name that returned none, and it is the not-found outcome carrying that
  name; conversely every such document gets that outcome.
\<close>

theorem no_name_outcome:
  fixes df :: "'f dataframe"
  assumes "extract_text_from_pdf file = Inr text" "extract_metadata file = Inr metadata"
    and "extract_journal_name text metadata = Inr None"
  shows "process_pdf database file (Some df)
           = (Inr (error_outcome Journal_not_recognised (Some (take 500 text))), Some df)
       \<and> process_pdf (Inr df) file None
           = (Inr (error_outcome Journal_not_recognised (Some (take 500 text))), None)
       \<and> status (error_outcome Journal_not_recognised (Some (take 500 text)) :: 'f outcome) = Error
       \<and> (\<forall>(database' :: string + 'f dataframe) file' journal_df r.
             fst (process_pdf database' file' journal_df) = Inr r \<and> status r = Not_found \<longrightarrow>
             (\<exists>df' text' metadata' name.
                (journal_df = Some df' \<or> (journal_df = None \<and> database' = Inr df'))
                \<and> extract_text_from_pdf file' = Inr text'
                \<and> extract_metadata file' = Inr metadata'
                \<and> extract_journal_name text' metadata' = Inr (Some name)
                \<and> fst (get_impact_factor name df' default_threshold) = Inr None
                \<and> r = not_found_outcome name))
       \<and> (\<forall>(database' :: string + 'f dataframe) file' journal_df df' text' metadata' name.
             (journal_df = Some df' \<or> (journal_df = None \<and> database' = Inr df'))
             \<and> extract_text_from_pdf file' = Inr text'
             \<and> extract_metadata file' = Inr metadata'
             \<and> extract_journal_name text' metadata' = Inr (Some name)
             \<and> fst (get_impact_factor name df' default_threshold) = Inr None \<longrightarrow>
             fst (process_pdf database' file' journal_df) = Inr (not_found_outcome name)
             \<and> status (not_found_outcome name :: 'f outcome) = Not_found)"
proof -
  have a: "process_pdf database file (Some df)
           = (Inr (error_outcome Journal_not_recognised (Some (take 500 text))), Some df)
       \<and> process_pdf (Inr df) file None
           = (Inr (error_outcome Journal_not_recognised (Some (take 500 text))), None)
       \<and> status (error_outcome Journal_not_recognised (Some (take 500 text)) :: 'f outcome) = Error"
    using assms by (simp add: process_pdf_def process_pdf_with_def error_outcome_def)
  have b: "\<exists>df' text' metadata' name.
                (journal_df = Some df' \<or> (journal_df = None \<and> database' = Inr df'))
                \<and> extract_text_from_pdf file' = Inr text'
                \<and> extract_metadata file' = Inr metadata'
                \<and> extract_journal_name text' metadata' = Inr (Some name)
                \<and> fst (get_impact_factor name df' default_threshold) = Inr None
                \<and> r = not_found_outcome name"
    if h: "fst (process_pdf database' file' journal_df) = Inr r" "status r = Not_found"
    for database' :: "string + 'f dataframe" and file' journal_df r
  proof (cases journal_df)
    case (Some df')
    then have "fst (process_pdf_with file' df') = Inr r" using h(1) by (simp add: fst_process_pdf)
    then show ?thesis using process_pdf_with_not_found[OF _ h(2)] Some by blast
  next
    case None
    show ?thesis
    proof (cases database')
      case (Inl e)
      then have "r = error_outcome (Load_failed e) None"
        using h(1) None by (simp add: fst_process_pdf)
      then show ?thesis using h(2) by (simp add: error_outcome_def)
    next
      case (Inr df')
      then have "fst (process_pdf_with file' df') = Inr r"
        using h(1) None by (simp add: fst_process_pdf)
      then show ?thesis using process_pdf_with_not_found[OF _ h(2)] None Inr by blast
    qed
  qed
  have c: "fst (process_pdf database' file' journal_df) = Inr (not_found_outcome name)
             \<and> status (not_found_outcome name :: 'f outcome) = Not_found"
    if h: "journal_df = Some df' \<or> (journal_df = None \<and> database' = Inr df')"
      "extract_text_from_pdf file' = Inr text'" "extract_metadata file' = Inr metadata'"
      "extract_journal_name text' metadata' = Inr (Some name)"
      "fst (get_impact_factor name df' default_threshold) = Inr None"
    for database' :: "string + 'f dataframe" and file' journal_df df' text' metadata' name
  proof -
    have "fst (process_pdf_with file' df') = Inr (not_found_outcome name)"
      using h(2,3,4,5) by (rule process_pdf_with_lookup_none)
    then have "fst (process_pdf database' file' journal_df) = Inr (not_found_outcome name)"
      using h(1) by (auto simp: fst_process_pdf)
    then show ?thesis by (simp add: not_found_outcome_def)
  qed
  show ?thesis using a b c by blast
qed

theorem no_name_outcome_witness:
  "extract_text_from_pdf blank_pdf = Inr ''no journal here''
   \<and> extract_metadata blank_pdf = Inr Map.empty
   \<and> extract_journal_name ''no journal here'' Map.empty = Inr None
   \<and> process_pdf (Inr nature_table) blank_pdf (Some nature_table)
       = (Inr (error_outcome Journal_not_recognised (Some ''no journal here'')), Some nature_table)
   \<and> extract_text_from_pdf science_pdf = Inr ''some text''
   \<and> extract_metadata science_pdf = Inr [''/Subject'' \<mapsto> ''Science, 2023'']
   \<and> extract_journal_name ''some text'' [''/Subject'' \<mapsto> ''Science, 2023''] = Inr (Some ''Science'')
   \<and> fst (get_impact_factor ''Science'' nature_table default_threshold) = Inr None
   \<and> fst (process_pdf (Inr nature_table) science_pdf (Some nature_table))
       = Inr (not_found_outcome ''Science'')"
proof -
  have a: "extract_text_from_pdf blank_pdf = Inr ''no journal here''" by code_simp
  have b: "extract_metadata blank_pdf = Inr Map.empty" by (simp add: extract_metadata_def blank_pdf_def)
  have c: "extract_journal_name ''no journal here'' Map.empty = Inr None" by code_simp
  have t: "take 500 ''no journal here'' = ''no journal here''" by simp
  have d: "extract_text_from_pdf science_pdf = Inr ''some text''" by code_simp
  have e: "extract_metadata science_pdf = Inr [''/Subject'' \<mapsto> ''Science, 2023'']"
    by (auto simp: extract_metadata_def science_pdf_def fun_eq_iff)
  have f: "extract_journal_name ''some text'' [''/Subject'' \<mapsto> ''Science, 2023''] = Inr (Some ''Science'')"
    by code_simp
  have g: "fst (get_impact_factor ''Science'' nature_table default_threshold) = Inr None"
    by code_simp
  note inst = no_name_outcome[OF a b c, of "Inr nature_table" nature_table]
  have 1: "process_pdf (Inr nature_table) blank_pdf (Some nature_table)
       = (Inr (error_outcome Journal_not_recognised (Some ''no journal here'')), Some nature_table)"
    using conjunct1[OF inst] unfolding t .
  have "fst (process_pdf (Inr nature_table) science_pdf (Some nature_table))
          = Inr (not_found_outcome ''Science'')
        \<and> status (not_found_outcome ''Science'' :: rat outcome) = Not_found"
    using conjunct2[OF conjunct2[OF conjunct2[OF conjunct2[OF inst]]], rule_format,
        of "Some nature_table" nature_table "Inr nature_table" science_pdf "''some text''"
           "[''/Subject'' \<mapsto> ''Science, 2023'']" "''Science''"]
      d e f g by blast
  then show ?thesis using a b c 1 d e f g by blast
qed

text \<open>
  C9 (a failed read carries a preview of the text obtained), as stated: false. When the
  text is read and the metadata read then raises, the outcome has no preview.
\<close>

theorem read_failure_preview_counterexample:
  "extract_text_from_pdf half_read_pdf = Inr ''abc''
   \<and> extract_metadata half_read_pdf = Inl ''boom''
   \<and> fst (process_pdf (Inr nature_table) half_read_pdf (Some nature_table)) =
       Inr \<lparr>status = Error, message = Some (Read_failed ''boom''),
            extracted_text_preview = None,
            extracted_journal_name = None, matched_journal_name = None,
            result_impact_factor = None, result_match_type = None, result_similarity = None,
            file_path = None, file_name = None\<rparr>"
proof -
  have a: "extract_text_from_pdf half_read_pdf = Inr ''abc''" by code_simp
  have b: "extract_metadata half_read_pdf = Inl ''boom''"
    by (simp add: extract_metadata_def half_read_pdf_def)
  show ?thesis
    using a b by (simp add: process_pdf_def process_pdf_with_def error_outcome_def)
qed

text \<open>
  C9, amended. When either read raises, the outcome has the status \<open>'error'\<close> and the
  read-failure message ending in the text of the exception, and it has no preview,
  whether or not the text had been read. (The preview of at most 500 characters belongs
  to the outcome of an extraction that found no name.)
\<close>

theorem read_failure_outcome:
  assumes "extract_text_from_pdf file = Inl e
           \<or> (extract_text_from_pdf file = Inr text \<and> extract_metadata file = Inl e)"
  shows "process_pdf database file (Some df) = (Inr (error_outcome (Read_failed e) None), Some df)
       \<and> process_pdf (Inr df) file None = (Inr (error_outcome (Read_failed e) None), None)
       \<and> status (error_outcome (Read_failed e) None :: 'f outcome) = Error
       \<and> message (error_outcome (Read_failed e) None :: 'f outcome) = Some (Read_failed e)
       \<and> extracted_text_preview (error_outcome (Read_failed e) None :: 'f outcome) = None"
  using assms by (auto simp: process_pdf_def process_pdf_with_def error_outcome_def)

theorem read_failure_outcome_witness:
  "extract_text_from_pdf half_read_pdf = Inr ''abc''
   \<and> extract_metadata half_read_pdf = Inl ''boom''
   \<and> process_pdf (Inr nature_table) half_read_pdf (Some nature_table)
       = (Inr (error_outcome (Read_failed ''boom'') None), Some nature_table)
   \<and> extract_text_from_pdf unreadable_pdf = Inl ''EOF marker not found''
   \<and> process_pdf (Inr nature_table) unreadable_pdf (Some nature_table)
       = (Inr (error_outcome (Read_failed ''EOF marker not found'') None), Some nature_table)"
proof -
  have a: "extract_text_from_pdf half_read_pdf = Inr ''abc''" by code_simp
  have b: "extract_metadata half_read_pdf = Inl ''boom''"
    by (simp add: extract_metadata_def half_read_pdf_def)
  have c: "extract_text_from_pdf unreadable_pdf = Inl ''EOF marker not found''" by code_simp
  have 1: "extract_text_from_pdf half_read_pdf = Inl ''boom''
           \<or> (extract_text_from_pdf half_read_pdf = Inr ''abc'' \<and> extract_metadata half_read_pdf = Inl ''boom'')"
    using a b by simp
  have 2: "extract_text_from_pdf unreadable_pdf = Inl ''EOF marker not found''
           \<or> (extract_text_from_pdf unreadable_pdf = Inr ''abc''
               \<and> extract_metadata unreadable_pdf = Inl ''EOF marker not found'')"
    using c by simp
  show ?thesis
    using a b c read_failure_outcome[OF 1, of "Inr nature_table" nature_table]
      read_failure_outcome[OF 2, of "Inr nature_table" nature_table]
    by blast
qed

subsection \<open>The batch\<close>

text \<open>What the batch records for one file processed on its own: the outcome with the
  path and name of the file, or the exception.\<close>

definition recorded :: "'f dataframe \<Rightarrow> pdf \<Rightarrow> error + 'f outcome" where
  "recorded df file =
     (case fst (process_pdf_with file df) of
        Inl err \<Rightarrow> Inl err
      | Inr batch_result \<Rightarrow> Inr (batch_result\<lparr>file_path := Some (pdf_path file),
                                                  file_name := Some (pdf_name file)\<rparr>))"

lemma idxmax_nonempty: "xs \<noteq> [] \<Longrightarrow> \<exists>i. idxmax xs = Inr i"
  by (cases xs) (simp_all add: idxmax_def)

lemma get_impact_factor_with_rows:
  assumes "rows df \<noteq> []"
  shows "\<exists>r s. get_impact_factor name df threshold = (Inr r, df\<lparr>similarity := s\<rparr>)"
proof (cases "filter (\<lambda>r. journal_name_lower r = strip (lower name)) (rows df)")
  case (Cons row rest)
  then have "snd (get_impact_factor name df threshold) = df\<lparr>similarity := similarity df\<rparr>"
    by (simp add: get_impact_factor_def)
  moreover have "\<exists>r. fst (get_impact_factor name df threshold) = Inr r"
    using Cons by (simp add: get_impact_factor_def)
  ultimately show ?thesis by (metis prod.collapse)
next
  case Nil
  let ?sims = "map (\<lambda>r. calculate_similarity (journal_name_lower r) (strip (lower name))) (rows df)"
  have "?sims \<noteq> []" using assms by simp
  then obtain i where "idxmax ?sims = Inr i" using idxmax_nonempty by blast
  then have "snd (get_impact_factor name df threshold) = df\<lparr>similarity := Some ?sims\<rparr>"
      "\<exists>r. fst (get_impact_factor name df threshold) = Inr r"
    using Nil by (simp_all add: get_impact_factor_def Let_def)
  then show ?thesis by (metis prod.collapse)
qed

text \<open>The outcome of a file depends on the table only through what the lookup returns.\<close>

definition lookup_outcome :: "string \<Rightarrow> error + 'f impact_info option \<Rightarrow> error + 'f outcome" where
  "lookup_outcome name found =
     (case found of
        Inl err \<Rightarrow> Inl err
      | Inr None \<Rightarrow> Inr (not_found_outcome name)
      | Inr (Some impact_info) \<Rightarrow> Inr (success_outcome name impact_info))"

definition before_lookup :: "pdf \<Rightarrow> (error + 'f outcome) + string" where
  "before_lookup file =
     (case extract_text_from_pdf file of
        Inl e \<Rightarrow> Inl (Inr (error_outcome (Read_failed e) None))
      | Inr text \<Rightarrow>
          (case extract_metadata file of
             Inl e \<Rightarrow> Inl (Inr (error_outcome (Read_failed e) None))
           | Inr metadata \<Rightarrow>
               (case extract_journal_name text metadata of
                  Inl err \<Rightarrow> Inl (Inl err)
                | Inr None \<Rightarrow>
                    Inl (Inr (error_outcome Journal_not_recognised (Some (take 500 text))))
                | Inr (Some name) \<Rightarrow>
                    if name = []
                    then Inl (Inr (error_outcome Journal_not_recognised (Some (take 500 text))))
                    else Inr name)))"

lemma process_pdf_with_split:
  "process_pdf_with file df =
     (case before_lookup file of
        Inl r \<Rightarrow> (r, df)
      | Inr name \<Rightarrow> (lookup_outcome name (fst (get_impact_factor name df default_threshold)),
                     snd (get_impact_factor name df default_threshold)))"
  by (simp add: process_pdf_with_def before_lookup_def lookup_outcome_def
           split: sum.splits option.splits prod.splits)

lemma before_lookup_not_raised: "before_lookup file \<noteq> Inl (Inl err)"
  using extract_journal_name_not_raised
  by (auto simp: before_lookup_def split: sum.splits option.splits if_splits)

lemma process_pdf_with_rows:
  fixes df :: "'f dataframe"
  assumes "rows df \<noteq> []"
  shows "\<exists>r s. process_pdf_with file df = (Inr r, df\<lparr>similarity := s\<rparr>)"
proof (cases "before_lookup file :: (error + 'f outcome) + string")
  case (Inl r)
  then obtain r' where "r = Inr r'" using before_lookup_not_raised by (cases r) auto
  then have "process_pdf_with file df = (Inr r', df\<lparr>similarity := similarity df\<rparr>)"
    using Inl by (simp add: process_pdf_with_split)
  then show ?thesis by blast
next
  case (Inr name)
  obtain r s where g: "get_impact_factor name df default_threshold = (Inr r, df\<lparr>similarity := s\<rparr>)"
    using get_impact_factor_with_rows[OF assms] by blast
  obtain r' where "lookup_outcome name (Inr r) = Inr r'"
    by (cases r) (simp_all add: lookup_outcome_def)
  then have "process_pdf_with file df = (Inr r', df\<lparr>similarity := s\<rparr>)"
    using Inr g by (simp add: process_pdf_with_split)
  then show ?thesis by blast
qed

lemma process_pdf_with_ignores_similarity:
  "fst (process_pdf_with file (df\<lparr>similarity := s\<rparr>)) = fst (process_pdf_with file df)"
  by (simp add: process_pdf_with_split get_impact_factor_ignores_similarity split: sum.splits)

lemma batch_loop_with_rows:
  assumes "rows df \<noteq> []"
  shows "\<exists>s rs. batch_loop files (df\<lparr>similarity := s0\<rparr>) acc = (Inr (acc @ rs), df\<lparr>similarity := s\<rparr>)
                \<and> map Inr rs = map (recorded df) files"
proof (induction files arbitrary: s0 acc)
  case Nil
  show ?case by (rule exI[of _ s0], rule exI[of _ "[]"]) simp
next
  case (Cons pdf_file files)
  have "rows (df\<lparr>similarity := s0\<rparr>) \<noteq> []" using assms by simp
  then obtain r s where p: "process_pdf_with pdf_file (df\<lparr>similarity := s0\<rparr>)
                              = (Inr r, df\<lparr>similarity := s0, similarity := s\<rparr>)"
    using process_pdf_with_rows by blast
  then have "fst (process_pdf_with pdf_file df) = Inr r"
    using process_pdf_with_ignores_similarity[of pdf_file s0 df] by simp
  then have r: "recorded df pdf_file
                  = Inr (r\<lparr>file_path := Some (pdf_path pdf_file), file_name := Some (pdf_name pdf_file)\<rparr>)"
    by (simp add: recorded_def)
  define r' where "r' = r\<lparr>file_path := Some (pdf_path pdf_file), file_name := Some (pdf_name pdf_file)\<rparr>"
  obtain s' rs where b: "batch_loop files (df\<lparr>similarity := s\<rparr>) (acc @ [r'])
                           = (Inr ((acc @ [r']) @ rs), df\<lparr>similarity := s'\<rparr>)"
      "map Inr rs = map (recorded df) files"
    using Cons.IH by blast
  have "batch_loop (pdf_file # files) (df\<lparr>similarity := s0\<rparr>) acc
          = (Inr (acc @ r' # rs), df\<lparr>similarity := s'\<rparr>)
        \<and> map Inr (r' # rs) = map (recorded df) (pdf_file # files)"
    using p r b by (simp add: r'_def)
  then show ?case by blast
qed

text \<open>A file that cannot be read is recorded as an error with the read-failure message.\<close>

lemma recorded_read_failure:
  assumes "extract_text_from_pdf file = Inl e
           \<or> (extract_text_from_pdf file = Inr text \<and> extract_metadata file = Inl e)"
  shows "recorded df file = Inr ((error_outcome (Read_failed e) None)
           \<lparr>file_path := Some (pdf_path file), file_name := Some (pdf_name file)\<rparr>)"
  using assms by (auto simp: recorded_def process_pdf_with_def)

text \<open>
  With a table of at least one row no exception leaves the batch: the report has one
  outcome for each file, in the order of the files, and each is the outcome of that file
  processed on its own with the table as it was passed in.
\<close>

lemma batch_isolation_with_rows:
  assumes "rows df \<noteq> []"
  shows "\<exists>rs. batch_process_pdfs database files (Some df) = Inr rs
              \<and> map Inr rs = map (recorded df) files"
proof (cases "files = []")
  case True
  then show ?thesis by (simp add: batch_process_pdfs_def)
next
  case False
  obtain s rs where "batch_loop files (df\<lparr>similarity := similarity df\<rparr>) []
              = (Inr ([] @ rs), df\<lparr>similarity := s\<rparr>)" "map Inr rs = map (recorded df) files"
    using batch_loop_with_rows[OF assms] by blast
  then show ?thesis using False by (simp add: batch_process_pdfs_def)
qed

text \<open>
  C8 (batch isolation). With a table that has no rows, the batch of an unreadable file
  followed by a file whose subject names a journal is aborted: the lookup for the second
  file raises \<open>ValueError\<close>, which nothing catches, and no report is returned. (With a
  table of at least one row the batch is never aborted: \<open>batch_isolation_with_rows\<close>.)
\<close>

theorem batch_aborts_on_empty_table:
  "batch_process_pdfs (Inl ''not used'') [unreadable_pdf, nature_pdf]
     (Some (load_journal_database ([] :: (string \<times> rat) list))) = Inl (Raised ValueError)"
  by code_simp

end
